theory Spec2Isabelle
  imports Main "HOL-Library.Sublist"
begin

section \<open>hol2ics: converting an Outlook holiday file to an iCalendar file\<close>

text \<open>
  A shallow embedding of \<^verbatim>\<open>hol2ics.py\<close>. A Python \<^verbatim>\<open>str\<close> is a \<^typ>\<open>string\<close>
  whose characters are the code points below 256. A text file is modelled by the text
  that the text layer delivers when it is read (every line ending is a line feed) and
  by the text handed to it when it is written.
\<close>

subsection \<open>Characters and strings\<close>

abbreviation LF :: char where "LF \<equiv> CHR 0x0A"
abbreviation CR :: char where "CR \<equiv> CHR 0x0D"

definition CRLF :: string where
  "CRLF = [CR, LF]"

text \<open>\<^verbatim>\<open>str.isspace\<close> on one character: the white space among the code points below 256.\<close>

definition is_space :: "char \<Rightarrow> bool" where
  "is_space c = ((of_char c :: nat) \<in> {9, 10, 11, 12, 13, 28, 29, 30, 31, 32, 133, 160})"

definition is_digit :: "char \<Rightarrow> bool" where
  "is_digit c = (48 \<le> (of_char c :: nat) \<and> (of_char c :: nat) \<le> 57)"

definition in_range :: "char \<Rightarrow> char \<Rightarrow> char \<Rightarrow> bool" where
  "in_range lo hi c = ((of_char lo :: nat) \<le> of_char c \<and> (of_char c :: nat) \<le> of_char hi)"

text \<open>\<^verbatim>\<open>s.strip()\<close>\<close>

definition strip :: "string \<Rightarrow> string" where
  "strip s = rev (dropWhile is_space (rev (dropWhile is_space s)))"

text \<open>\<^verbatim>\<open>s.split(sep)\<close> for a separator of one character: always at least one fragment.\<close>

fun str_split :: "char \<Rightarrow> string \<Rightarrow> string list" where
  "str_split sep [] = [[]]"
| "str_split sep (c # cs) =
     (if c = sep then [] # str_split sep cs
      else (case str_split sep cs of
              [] \<Rightarrow> [[c]]
            | f # fs \<Rightarrow> (c # f) # fs))"

text \<open>\<^verbatim>\<open>sep.join(lines)\<close>\<close>

fun str_join :: "string \<Rightarrow> string list \<Rightarrow> string" where
  "str_join sep [] = []"
| "str_join sep [l] = l"
| "str_join sep (l # ls) = l @ sep @ str_join sep ls"

text \<open>\<^verbatim>\<open>int(s)\<close> on a string of decimal digits with optional surrounding white space.\<close>

definition digit_val :: "char \<Rightarrow> nat" where
  "digit_val c = of_char c - 48"

definition py_int :: "string \<Rightarrow> nat option" where
  "py_int s =
     (let t = strip s
      in if t \<noteq> [] \<and> list_all is_digit t
         then Some (foldl (\<lambda>n c. 10 * n + digit_val c) 0 t)
         else None)"

text \<open>A number printed in decimal, padded with zeros to a fixed width.\<close>

definition digit_char :: "nat \<Rightarrow> char" where
  "digit_char d = ''0123456789'' ! (d mod 10)"

fun zero_padded :: "nat \<Rightarrow> nat \<Rightarrow> string" where
  "zero_padded 0 n = []"
| "zero_padded (Suc w) n = zero_padded w (n div 10) @ [digit_char n]"

text \<open>A number printed in decimal with as many digits as it has, and no padding.\<close>

fun decimal :: "nat \<Rightarrow> string" where
  "decimal n = (if n < 10 then [digit_char n] else decimal (n div 10) @ [digit_char n])"

declare decimal.simps [simp del]

subsection \<open>Regular expressions as the \<^verbatim>\<open>re\<close> module matches them\<close>

text \<open>
  The two patterns of the program use literals, \<^verbatim>\<open>.\<close>, \<^verbatim>\<open>\s\<close>, \<^verbatim>\<open>\d\<close>, character
  ranges, sequence, alternation, the greedy star and plus, and named groups.
\<close>

datatype re =
    Chr char
  | Dot
  | Ws
  | Dig
  | Rng char char
  | Seq re re
  | Alt re re
  | Star re
  | Grp string re

definition Plus :: "re \<Rightarrow> re" where
  "Plus r = Seq r (Star r)"

text \<open>
  A matching state is the input still to be read and the groups bound so far, the
  latest first. The matcher returns every way to match, in the order in which a
  backtracking matcher tries them: the first alternative before the second, a longer
  repetition before a shorter one.
\<close>

type_synonym mstate = "string \<times> (string \<times> string) list"

definition one_char :: "(char \<Rightarrow> bool) \<Rightarrow> mstate \<Rightarrow> mstate list" where
  "one_char P st =
     (case fst st of
        [] \<Rightarrow> []
      | c # cs \<Rightarrow> if P c then [(cs, snd st)] else [])"

text \<open>
  A greedy repetition: one more round of the body where it consumes input, and the
  repetitions of that, before stopping here. The bound \<open>n\<close> is the length of the input.
\<close>

fun star_iter :: "(mstate \<Rightarrow> mstate list) \<Rightarrow> nat \<Rightarrow> mstate \<Rightarrow> mstate list" where
  "star_iter m 0 st = [st]"
| "star_iter m (Suc n) st =
     concat (map (star_iter m n)
               (filter (\<lambda>st'. length (fst st') < length (fst st)) (m st))) @ [st]"

fun rmatch :: "re \<Rightarrow> mstate \<Rightarrow> mstate list" where
  "rmatch (Chr a) st = one_char (\<lambda>c. c = a) st"
| "rmatch Dot st = one_char (\<lambda>c. c \<noteq> LF) st"
| "rmatch Ws st = one_char is_space st"
| "rmatch Dig st = one_char is_digit st"
| "rmatch (Rng lo hi) st = one_char (in_range lo hi) st"
| "rmatch (Seq r1 r2) st = concat (map (rmatch r2) (rmatch r1 st))"
| "rmatch (Alt r1 r2) st = rmatch r1 st @ rmatch r2 st"
| "rmatch (Star r) st = star_iter (rmatch r) (length (fst st)) st"
| "rmatch (Grp g r) st =
     map (\<lambda>st'. (fst st', (g, take (length (fst st) - length (fst st')) (fst st)) # snd st'))
       (rmatch r st)"

text \<open>
  \<^verbatim>\<open>re.match(pattern, s)\<close>: the first way to match at the start of \<open>s\<close>, as the
  unread rest of the input and the groups; the match need not reach the end of \<open>s\<close>.
\<close>

definition re_match :: "re \<Rightarrow> string \<Rightarrow> mstate option" where
  "re_match r s = (case rmatch r (s, []) of [] \<Rightarrow> None | st # _ \<Rightarrow> Some st)"

text \<open>\<^verbatim>\<open>m.group(g)\<close> for a group that took part in the match.\<close>

definition group :: "mstate \<Rightarrow> string \<Rightarrow> string" where
  "group st g = (case map_of (snd st) g of None \<Rightarrow> [] | Some s \<Rightarrow> s)"

subsection \<open>Dates and times\<close>

text \<open>
  A \<^verbatim>\<open>datetime.datetime\<close> value, down to the second. The constructor accepts the
  years 1 to 9999 and the days that the month has in that year.
\<close>

record datetime =
  year :: nat
  month :: nat
  day :: nat
  hour :: nat
  minute :: nat
  second :: nat

definition is_leap :: "nat \<Rightarrow> bool" where
  "is_leap y = (y mod 4 = 0 \<and> (y mod 100 \<noteq> 0 \<or> y mod 400 = 0))"

definition days_in_month :: "nat \<Rightarrow> nat \<Rightarrow> nat" where
  "days_in_month y m =
     (if m = 2 then (if is_leap y then 29 else 28)
      else if m \<in> {4, 6, 9, 11} then 30 else 31)"

definition valid_date :: "nat \<Rightarrow> nat \<Rightarrow> nat \<Rightarrow> bool" where
  "valid_date y m d =
     (1 \<le> y \<and> y \<le> 9999 \<and> 1 \<le> m \<and> m \<le> 12 \<and> 1 \<le> d \<and> d \<le> days_in_month y m)"

subsection \<open>Errors\<close>

text \<open>
  One constructor for each place that raises. All but the last one are a
  \<^verbatim>\<open>ValueError\<close> in the source: \<open>ValueError\<close> is the one the program raises itself, with
  its message; \<open>UnpackError\<close> is raised where a list of that many fragments is unpacked
  into two names; the next three are raised by \<^verbatim>\<open>strptime\<close>, \<open>EmptyName\<close> by
  \<^verbatim>\<open>with_suffix\<close>.
\<close>

datatype error =
    ValueError string
  | UnpackError nat
  | TimeDataMismatch string
  | UnconvertedData string
  | DateOutOfRange
  | EmptyName
  | FileNotFoundError string

subsection \<open>\<^verbatim>\<open>datetime.strptime(s, "%Y/%m/%d")\<close> and \<^verbatim>\<open>strftime\<close>\<close>

text \<open>
  The regular expression that \<^verbatim>\<open>_strptime\<close> builds for the format \<^verbatim>\<open>%Y/%m/%d\<close>:
  \<^verbatim>\<open>(?P<Y>\d\d\d\d)/(?P<m>1[0-2]|0[1-9]|[1-9])/(?P<d>3[0-1]|[1-2]\d|0[1-9]|[1-9]| [1-9])\<close>
\<close>

definition date_regex :: re where
  "date_regex =
     Seq (Grp ''Y'' (Seq Dig (Seq Dig (Seq Dig Dig))))
    (Seq (Chr CHR ''/'')
    (Seq (Grp ''m''
            (Alt (Seq (Chr CHR ''1'') (Rng CHR ''0'' CHR ''2''))
            (Alt (Seq (Chr CHR ''0'') (Rng CHR ''1'' CHR ''9''))
                 (Rng CHR ''1'' CHR ''9''))))
    (Seq (Chr CHR ''/'')
         (Grp ''d''
            (Alt (Seq (Chr CHR ''3'') (Rng CHR ''0'' CHR ''1''))
            (Alt (Seq (Rng CHR ''1'' CHR ''2'') Dig)
            (Alt (Seq (Chr CHR ''0'') (Rng CHR ''1'' CHR ''9''))
            (Alt (Rng CHR ''1'' CHR ''9'')
                 (Seq (Chr CHR '' '') (Rng CHR ''1'' CHR ''9''))))))))))"

text \<open>
  The input must match from its start and be used up; the three groups are read as
  numbers and handed to the constructor, with midnight as the time.
\<close>

definition strptime :: "string \<Rightarrow> error + datetime" where
  "strptime data_string =
     (case re_match date_regex data_string of
        None \<Rightarrow> Inl (TimeDataMismatch data_string)
      | Some found \<Rightarrow>
          if fst found \<noteq> [] then Inl (UnconvertedData (fst found))
          else (case (py_int (group found ''Y''), py_int (group found ''m''),
                      py_int (group found ''d'')) of
                  (Some y, Some m, Some d) \<Rightarrow>
                    if valid_date y m d
                    then Inr \<lparr>year = y, month = m, day = d, hour = 0, minute = 0, second = 0\<rparr>
                    else Inl DateOutOfRange
                | _ \<Rightarrow> Inl (TimeDataMismatch data_string)))"

text \<open>
  \<^verbatim>\<open>dt.strftime("%Y%m%d")\<close>. The format is handed to the \<^verbatim>\<open>strftime\<close> of the C library,
  which prints the year for \<^verbatim>\<open>%Y\<close> in decimal without leading zeros, so the year 999 as
  \<^verbatim>\<open>999\<close> and the year 1 as \<^verbatim>\<open>1\<close>, and the month and the day with two digits each.
\<close>

definition strftime_date :: "datetime \<Rightarrow> string" where
  "strftime_date dt = decimal (year dt) @ zero_padded 2 (month dt) @ zero_padded 2 (day dt)"

text \<open>\<^verbatim>\<open>dt.strftime(ICS_DATETIME_FORMAT)\<close>, the format being \<^verbatim>\<open>%Y%m%dT%H%M%S\<close>.\<close>

definition strftime_ics :: "datetime \<Rightarrow> string" where
  "strftime_ics dt =
     strftime_date dt @ ''T'' @ zero_padded 2 (hour dt) @ zero_padded 2 (minute dt)
       @ zero_padded 2 (second dt)"

subsection \<open>\<^verbatim>\<open>line_to_event_tuple\<close>\<close>

type_synonym event = "string \<times> datetime"

definition line_to_event_tuple :: "string \<Rightarrow> error + event" where
  "line_to_event_tuple line =
     (case str_split CHR '','' line of
        [day_title, date_str] \<Rightarrow>
          (case strptime (strip date_str) of
             Inl e \<Rightarrow> Inl e
           | Inr begin_datetime \<Rightarrow> Inr (day_title, begin_datetime))
      | fragments \<Rightarrow> Inl (UnpackError (length fragments)))"

subsection \<open>Paths, files and the sources of fresh values\<close>

text \<open>
  A \<^verbatim>\<open>pathlib\<close> path in parsed form: its final component \<open>name\<close> and the text in
  front of it.
\<close>

record path =
  folder :: string
  name :: string

definition path_str :: "path \<Rightarrow> string" where
  "path_str p = folder p @ name p"

text \<open>\<^verbatim>\<open>s.rfind(c)\<close>, with \<open>None\<close> where Python answers \<open>-1\<close>.\<close>

definition rfind :: "char \<Rightarrow> string \<Rightarrow> nat option" where
  "rfind c s =
     (if c \<in> set s then Some (length s - 1 - length (takeWhile (\<lambda>x. x \<noteq> c) (rev s)))
      else None)"

text \<open>\<^verbatim>\<open>p.suffix\<close>: the name from its last dot on, unless that dot is first or last.\<close>

definition suffix_of :: "path \<Rightarrow> string" where
  "suffix_of p =
     (case rfind CHR ''.'' (name p) of
        None \<Rightarrow> []
      | Some i \<Rightarrow> if 0 < i \<and> i + 1 < length (name p) then drop i (name p) else [])"

text \<open>\<^verbatim>\<open>p.with_suffix(sfx)\<close> for a well-formed suffix such as \<^verbatim>\<open>.ics\<close>.\<close>

definition with_suffix :: "path \<Rightarrow> string \<Rightarrow> error + path" where
  "with_suffix p sfx =
     (if name p = [] then Inl EmptyName
      else let old_suffix = suffix_of p
           in if old_suffix = [] then Inr (p\<lparr>name := name p @ sfx\<rparr>)
              else Inr (p\<lparr>name := take (length (name p) - length old_suffix) (name p) @ sfx\<rparr>))"

text \<open>What a run can change: the text of each file, and the lines printed so far.\<close>

record world =
  files :: "path \<rightharpoonup> string"
  stdout :: "string list"

definition print :: "string list \<Rightarrow> world \<Rightarrow> world" where
  "print objects w = w\<lparr>stdout := stdout w @ [str_join '' '' objects]\<rparr>"

text \<open>\<^verbatim>\<open>p.open("w")\<close> creates the file or empties it; writing appends to its text.\<close>

definition open_w :: "path \<Rightarrow> world \<Rightarrow> world" where
  "open_w p w = w\<lparr>files := (files w)(p \<mapsto> [])\<rparr>"

definition writelines :: "path \<Rightarrow> string \<Rightarrow> world \<Rightarrow> world" where
  "writelines p s w =
     w\<lparr>files := (files w)(p \<mapsto> (case files w p of None \<Rightarrow> [] | Some old \<Rightarrow> old) @ s)\<rparr>"

text \<open>
  What differs from run to run: the text of the \<open>k\<close>-th identifier that
  \<^verbatim>\<open>uuid.uuid4()\<close> draws, and the local time at the \<open>k\<close>-th reading of the clock.
\<close>

record env =
  uuid4 :: "nat \<Rightarrow> string"
  now :: "nat \<Rightarrow> datetime"

subsection \<open>Reading lines\<close>

text \<open>\<^verbatim>\<open>handler.readline()\<close>: the next line with its line feed, and the text after it.\<close>

fun readline :: "string \<Rightarrow> string \<times> string" where
  "readline [] = ([], [])"
| "readline (c # cs) =
     (if c = LF then ([c], cs)
      else (case readline cs of (l, rest) \<Rightarrow> (c # l, rest)))"

text \<open>\<^verbatim>\<open>handler.readlines()\<close>: every remaining line.\<close>

function readlines :: "string \<Rightarrow> string list" where
  "readlines [] = []"
| "readlines (c # cs) = fst (readline (c # cs)) # readlines (snd (readline (c # cs)))"
  by pat_completeness auto
termination
proof (relation "measure length")
  show "wf (measure length)"
    by simp
next
  fix c :: char and cs :: string
  have le: "length (snd (readline s)) \<le> length s" for s
    by (induction s) (auto split: prod.splits)
  have "length (snd (readline (c # cs))) < Suc (length cs)"
    using le [of cs] by (auto split: prod.splits)
  then show "(snd (readline (c # cs)), c # cs) \<in> measure length"
    by simp
qed

subsection \<open>\<^verbatim>\<open>read_hol_file\<close>\<close>

text \<open>\<^verbatim>\<open>\[(?P<title>.+)\]\s*(?P<count>[0-9]+)\<close>\<close>

definition header_pattern :: re where
  "header_pattern =
     Seq (Chr CHR ''['')
    (Seq (Grp ''title'' (Plus Dot))
    (Seq (Chr CHR '']'')
    (Seq (Star Ws)
         (Grp ''count'' (Plus (Rng CHR ''0'' CHR ''9''))))))"

text \<open>
  The statements after the header has matched: \<open>count\<close> is bound, the hint is printed,
  and the title is returned with the lazy \<^verbatim>\<open>map\<close> over the remaining lines. The
  \<^verbatim>\<open>map\<close> object is modelled by the outcome of each of its steps, in order.
\<close>

definition header_found :: "string \<Rightarrow> string \<Rightarrow> string \<Rightarrow> world
    \<Rightarrow> (string \<times> (error + event) list) \<times> world" where
  "header_found title count rest w =
     (let w1 = print [''You can try to validate the resultant file using this webform:'',
                      ''https://icalendar.org/validator.html''] w
      in ((title, map line_to_event_tuple (readlines rest)), w1))"

definition read_hol_file :: "path \<Rightarrow> world
    \<Rightarrow> (error + string \<times> (error + event) list) \<times> world" where
  "read_hol_file source_filename w =
     (case files w source_filename of
        None \<Rightarrow> (Inl (FileNotFoundError (path_str source_filename)), w)
      | Some text \<Rightarrow>
          (case readline text of
             (header, rest) \<Rightarrow>
               (case re_match header_pattern header of
                  Some matches \<Rightarrow>
                    (case header_found (group matches ''title'') (group matches ''count'') rest w of
                       (res, w1) \<Rightarrow> (Inr res, w1))
                | None \<Rightarrow> (Inl (ValueError ''Unable to find header in given hol file''), w))))"

subsection \<open>\<^verbatim>\<open>write_ics_file\<close>\<close>

text \<open>
  The loop over the events, \<open>k\<close> counting the events already written. Taking the next
  event from the lazy \<^verbatim>\<open>map\<close> is where a malformed line raises.
\<close>

fun add_events :: "env \<Rightarrow> nat \<Rightarrow> (error + event) list \<Rightarrow> string list \<Rightarrow> error + string list" where
  "add_events e k [] lines = Inr lines"
| "add_events e k (Inl err # events) lines = Inl err"
| "add_events e k (Inr (ev_name, start_date) # events) lines =
     (let creation_time = strftime_ics (now e k);
          start_date = strftime_date start_date;
          event_lines =
            [''BEGIN:VEVENT'',
             ''UID:'' @ uuid4 e k,
             ''DTSTAMP:'' @ creation_time,
             ''DTSTART;VALUE=DATE:'' @ start_date,
             ''SUMMARY:'' @ ev_name,
             ''END:VEVENT'']
      in add_events e (Suc k) events (lines @ event_lines))"

text \<open>The list \<open>lines\<close> as it stands before it is joined.\<close>

definition ics_lines :: "env \<Rightarrow> (error + event) list \<Rightarrow> string \<Rightarrow> error + string list" where
  "ics_lines e events title =
     (case add_events e 0 events
             [''BEGIN:VCALENDAR'', ''VERSION:2.0'', ''PRODID:-//'' @ title @ ''//EN''] of
        Inl err \<Rightarrow> Inl err
      | Inr lines \<Rightarrow> Inr (lines @ [''END:VCALENDAR'']))"

definition write_ics_file :: "env \<Rightarrow> (error + event) list \<Rightarrow> path \<Rightarrow> string \<Rightarrow> world
    \<Rightarrow> (error + unit) \<times> world" where
  "write_ics_file e events destination_filename title w =
     (case ics_lines e events title of
        Inl err \<Rightarrow> (Inl err, w)
      | Inr lines \<Rightarrow>
          (let ics_str = str_join CRLF lines
           in (Inr (), writelines destination_filename ics_str (open_w destination_filename w))))"

subsection \<open>The command line\<close>

record args =
  source_path :: path
  destination_path :: "path option"

text \<open>The last two statements of the script: read the source, write the destination.\<close>

definition convert :: "env \<Rightarrow> path \<Rightarrow> path \<Rightarrow> world \<Rightarrow> (error + unit) \<times> world" where
  "convert e src dst w =
     (case read_hol_file src w of
        (Inl err, w1) \<Rightarrow> (Inl err, w1)
      | (Inr (title, events), w1) \<Rightarrow> write_ics_file e events dst title w1)"

text \<open>The choice of the destination, after the check of the source's extension.\<close>

definition choose_destination :: "args \<Rightarrow> error + path" where
  "choose_destination a =
     (case destination_path a of
        Some d \<Rightarrow>
          if suffix_of (source_path a) \<noteq> ''.ics''
          then Inl (ValueError ''Destination file has to end with the ics extension'')
          else Inr d
      | None \<Rightarrow> with_suffix (source_path a) ''.ics'')"

definition main :: "env \<Rightarrow> args \<Rightarrow> world \<Rightarrow> (error + unit) \<times> world" where
  "main e a w =
     (if suffix_of (source_path a) \<noteq> ''.hol''
      then (Inl (ValueError ''Source file has to end with the hol extension''), w)
      else (case choose_destination a of
              Inl err \<Rightarrow> (Inl err, w)
            | Inr dest \<Rightarrow>
                convert e (source_path a) dest
                  (print [''Attempting to convert '' @ path_str (source_path a) @ '' into ''
                            @ path_str dest] w)))"

section \<open>Notions of the specification\<close>

text \<open>
  The record parser as the specification words it: the line is cut at its first comma,
  a line without a comma is a malformed record, and the trimmed date fragment is parsed.
\<close>

definition split_first_comma :: "string \<Rightarrow> (string \<times> string) option" where
  "split_first_comma line =
     (if CHR '','' \<in> set line
      then Some (takeWhile (\<lambda>c. c \<noteq> CHR '','') line, tl (dropWhile (\<lambda>c. c \<noteq> CHR '','') line))
      else None)"

definition spec_line_to_event :: "string \<Rightarrow> error + event" where
  "spec_line_to_event line =
     (case split_first_comma line of
        None \<Rightarrow> Inl (UnpackError 1)
      | Some (title_fragment, date_fragment) \<Rightarrow>
          (case strptime (strip date_fragment) of
             Inl e \<Rightarrow> Inl e
           | Inr d \<Rightarrow> Inr (title_fragment, d)))"

text \<open>The date of a record as the specification prints it: \<^verbatim>\<open>YYYYMMDD\<close>, eight digits.\<close>

definition yyyymmdd :: "datetime \<Rightarrow> string" where
  "yyyymmdd dt = zero_padded 4 (year dt) @ zero_padded 2 (month dt) @ zero_padded 2 (day dt)"



text \<open>
  Two lists of lines that agree line by line, except that a \<open>UID\<close> line may stand against
  another \<open>UID\<close> line and a \<open>DTSTAMP\<close> line against another \<open>DTSTAMP\<close> line.
\<close>

definition same_but_stamp :: "string \<Rightarrow> string \<Rightarrow> bool" where
  "same_but_stamp a b =
     (a = b \<or> (prefix ''UID:'' a \<and> prefix ''UID:'' b)
            \<or> (prefix ''DTSTAMP:'' a \<and> prefix ''DTSTAMP:'' b))"

definition differ_only_in_uid_dtstamp :: "string list \<Rightarrow> string list \<Rightarrow> bool" where
  "differ_only_in_uid_dtstamp ls1 ls2 = list_all2 same_but_stamp ls1 ls2"

section \<open>Auxiliary notions for the proofs about the patterns\<close>

text \<open>The characters that a pattern can read.\<close>

fun may_read :: "re \<Rightarrow> char \<Rightarrow> bool" where
  "may_read (Chr a) c = (c = a)"
| "may_read Dot c = (c \<noteq> LF)"
| "may_read Ws c = is_space c"
| "may_read Dig c = is_digit c"
| "may_read (Rng lo hi) c = in_range lo hi c"
| "may_read (Seq r1 r2) c = (may_read r1 c \<or> may_read r2 c)"
| "may_read (Alt r1 r2) c = (may_read r1 c \<or> may_read r2 c)"
| "may_read (Star r) c = may_read r c"
| "may_read (Grp g r) c = may_read r c"

text \<open>
  The ways to read characters that satisfy \<open>P\<close> from the start of a string, a longer
  run before a shorter one: the run that was read, and the rest.
\<close>

fun greedy :: "(char \<Rightarrow> bool) \<Rightarrow> string \<Rightarrow> (string \<times> string) list" where
  "greedy P [] = [([], [])]"
| "greedy P (x # xs) =
     (if P x then map (\<lambda>(p, r). (x # p, r)) (greedy P xs) @ [([], x # xs)]
      else [([], x # xs)])"

text \<open>The longest run of characters that satisfy \<open>P\<close> after which the rest satisfies \<open>Q\<close>.\<close>

fun longest :: "(char \<Rightarrow> bool) \<Rightarrow> (string \<Rightarrow> bool) \<Rightarrow> string \<Rightarrow> (string \<times> string) option" where
  "longest P Q [] = (if Q [] then Some ([], []) else None)"
| "longest P Q (y # ys) =
     (case (if P y then longest P Q ys else None) of
        Some (p, r) \<Rightarrow> Some (y # p, r)
      | None \<Rightarrow> if Q (y # ys) then Some ([], y # ys) else None)"

text \<open>A closing bracket, white space and a digit: what must follow the title of a header.\<close>

definition tail_ok :: "string \<Rightarrow> bool" where
  "tail_ok r =
     (case r of
        [] \<Rightarrow> False
      | c # r1 \<Rightarrow> c = CHR '']'' \<and>
          (case dropWhile is_space r1 of [] \<Rightarrow> False | d # _ \<Rightarrow> is_digit d))"

text \<open>The part of the header pattern after the title.\<close>

definition header_tail :: re where
  "header_tail =
     Seq (Chr CHR '']'') (Seq (Star Ws) (Grp ''count'' (Plus (Rng CHR ''0'' CHR ''9''))))"

section \<open>Example inputs\<close>

definition example_env :: env where
  "example_env =
     \<lparr>uuid4 = (\<lambda>k. ''6f1c2a9e-0000-4000-8000-00000000000'' @ [digit_char k]),
      now = (\<lambda>k. \<lparr>year = 2026, month = 11, day = 4, hour = 9, minute = 30, second = k\<rparr>)\<rparr>"

definition cal_hol :: path where
  "cal_hol = \<lparr>folder = [], name = ''cal.hol''\<rparr>"

definition cal_ics :: path where
  "cal_ics = \<lparr>folder = [], name = ''cal.ics''\<rparr>"

definition out_ics :: path where
  "out_ics = \<lparr>folder = [], name = ''out.ics''\<rparr>"

text \<open>A world in which \<^verbatim>\<open>cal.hol\<close> holds the given text and \<^verbatim>\<open>out.ics\<close> exists already.\<close>

definition world_of :: "string \<Rightarrow> world" where
  "world_of text = \<lparr>files = [cal_hol \<mapsto> text, out_ics \<mapsto> ''old''], stdout = []\<rparr>"

text \<open>A source file whose only record line has no comma.\<close>

definition bad_record_text :: string where
  "bad_record_text = ''[T] 1'' @ [LF] @ ''No comma here'' @ [LF]"

text \<open>The source file of the end-to-end example, and a second source of fresh values.\<close>

definition test_text :: string where
  "test_text = ''[Test] 2'' @ [LF] @ ''A,2024/01/01'' @ [LF] @ ''B,2024/12/31'' @ [LF]"

definition other_env :: env where
  "other_env =
     \<lparr>uuid4 = (\<lambda>k. ''c0ffee00-1111-4222-8333-44444444444'' @ [digit_char k]),
      now = (\<lambda>k. \<lparr>year = 2027, month = 1, day = 2, hour = 3, minute = 4, second = 5 + k\<rparr>)\<rparr>"

text \<open>
  A source file whose header has a closing bracket inside the title and text after the
  count.
\<close>

definition bracket_text :: string where
  "bracket_text = ''[T] 1] 12 trailing junk'' @ [LF] @ ''A,2024/01/01'' @ [LF]"

text \<open>
  The record lines of the end-to-end example with the line feed that ends its header,
  and the same source file with another count in the header.
\<close>

definition test_records :: string where
  "test_records = [LF] @ ''A,2024/01/01'' @ [LF] @ ''B,2024/12/31'' @ [LF]"

definition recount_text :: string where
  "recount_text = ''[Test] 17'' @ [LF] @ ''A,2024/01/01'' @ [LF] @ ''B,2024/12/31'' @ [LF]"


text \<open>
  A source file with the header \<^verbatim>\<open>[Holidays 2024] 12\<close>, and the same file with another
  count.
\<close>

definition holidays_text :: string where
  "holidays_text = ''[Holidays 2024] 12'' @ [LF] @ ''A,2024/01/01'' @ [LF]"

definition holidays_recount_text :: string where
  "holidays_recount_text = ''[Holidays 2024] 365'' @ [LF] @ ''A,2024/01/01'' @ [LF]"

section \<open>Properties\<close>

subsection \<open>The header\<close>

text \<open>
  Claim C7, as stated, fails: the error raised for a first line that does not match the
  pattern has a fixed message, in which the offending line does not occur.
\<close>

theorem malformed_header_message_counterexample:
  "read_hol_file cal_hol (world_of (''Holidays 2024 12'' @ [LF])) =
     (Inl (ValueError ''Unable to find header in given hol file''),
      world_of (''Holidays 2024 12'' @ [LF]))
   \<and> \<not> sublist ''Holidays 2024 12'' ''Unable to find header in given hol file''"
proof -
  have m: "re_match header_pattern (''Holidays 2024 12'' @ [LF]) = None"
    by code_simp
  have r: "readline (''Holidays 2024 12'' @ [LF]) = (''Holidays 2024 12'' @ [LF], [])"
    by simp
  have s: "\<not> sublist ''Holidays 2024 12'' ''Unable to find header in given hol file''"
    by code_simp
  show ?thesis
    using m r s by (simp add: read_hol_file_def world_of_def cal_hol_def out_ics_def)
qed

text \<open>
  Claim C7, amended. For every first line that does not match the header pattern,
  \<^verbatim>\<open>read_hol_file\<close> fails with the value error whose message is the fixed text
  \<^verbatim>\<open>Unable to find header in given hol file\<close>, and changes nothing.
\<close>

theorem malformed_header_fixed_message:
  "files w src = Some text \<Longrightarrow> re_match header_pattern (fst (readline text)) = None
   \<Longrightarrow> read_hol_file src w = (Inl (ValueError ''Unable to find header in given hol file''), w)"
  by (cases "readline text") (simp add: read_hol_file_def)

theorem malformed_header_fixed_message_witness:
  "files (world_of (''Holidays 2024 12'' @ [LF])) cal_hol = Some (''Holidays 2024 12'' @ [LF])
   \<and> re_match header_pattern (fst (readline (''Holidays 2024 12'' @ [LF]))) = None
   \<and> read_hol_file cal_hol (world_of (''Holidays 2024 12'' @ [LF])) =
       (Inl (ValueError ''Unable to find header in given hol file''),
        world_of (''Holidays 2024 12'' @ [LF]))"
proof -
  have f: "files (world_of (''Holidays 2024 12'' @ [LF])) cal_hol = Some (''Holidays 2024 12'' @ [LF])"
    by (simp add: world_of_def cal_hol_def out_ics_def)
  have r: "fst (readline (''Holidays 2024 12'' @ [LF])) = ''Holidays 2024 12'' @ [LF]"
    by simp
  have m: "re_match header_pattern (fst (readline (''Holidays 2024 12'' @ [LF]))) = None"
    unfolding r by code_simp
  show ?thesis
    using f m malformed_header_fixed_message [OF f m] by simp
qed

subsection \<open>The command line\<close>

text \<open>
  Claim C3 does not hold of the code. With the source \<^verbatim>\<open>cal.hol\<close> and the explicit
  destination \<^verbatim>\<open>out.ics\<close>, which carries the extension \<^verbatim>\<open>.ics\<close>, the entry point
  raises the error about the destination's extension: the test reads the suffix of the
  source path.
\<close>

theorem explicit_destination_rejected:
  "suffix_of out_ics = ''.ics''
   \<and> main e \<lparr>source_path = cal_hol, destination_path = Some out_ics\<rparr> w =
       (Inl (ValueError ''Destination file has to end with the ics extension''), w)"
  by (simp add: main_def choose_destination_def suffix_of_def rfind_def cal_hol_def out_ics_def)

subsection \<open>Record lines\<close>

lemma str_split_not_Nil: "str_split c s \<noteq> []"
  by (induction s) (auto split: list.splits)

lemma length_str_split: "length (str_split c s) = Suc (length (filter (\<lambda>x. x = c) s))"
proof (induction s)
  case Nil
  then show ?case by simp
next
  case (Cons a s)
  then show ?case
    using str_split_not_Nil [of c s] by (auto split: list.splits)
qed

lemma str_split_no_sep: "c \<notin> set s \<Longrightarrow> str_split c s = [s]"
  by (induction s) auto

lemma str_split_one_sep: "c \<notin> set t \<Longrightarrow> c \<notin> set d \<Longrightarrow> str_split c (t @ c # d) = [t, d]"
  by (induction t) (auto simp: str_split_no_sep)

lemma line_unpack_error:
  assumes "length (filter (\<lambda>c. c = CHR '','') line) \<noteq> 1"
  shows "line_to_event_tuple line =
    Inl (UnpackError (Suc (length (filter (\<lambda>c. c = CHR '','') line))))"
proof -
  let ?fs = "str_split CHR '','' line"
  have n: "length ?fs = Suc (length (filter (\<lambda>c. c = CHR '','') line))"
    by (rule length_str_split)
  have "length ?fs \<noteq> 2"
    using assms n by simp
  then have "(case ?fs of
        [day_title, date_str] \<Rightarrow>
          (case strptime (strip date_str) of
             Inl e \<Rightarrow> Inl e
           | Inr begin_datetime \<Rightarrow> Inr (day_title, begin_datetime))
      | fragments \<Rightarrow> Inl (UnpackError (length fragments))) = Inl (UnpackError (length ?fs))"
    by (auto split: list.splits)
  then show ?thesis
    unfolding line_to_event_tuple_def n .
qed

lemma line_one_comma:
  assumes "CHR '','' \<notin> set t" "CHR '','' \<notin> set d"
  shows "line_to_event_tuple (t @ CHR '','' # d) =
     (case strptime (strip d) of Inl e \<Rightarrow> Inl e | Inr b \<Rightarrow> Inr (t, b))"
  using assms by (simp add: line_to_event_tuple_def str_split_one_sep)

text \<open>
  Claim C2, as stated, fails. The line \<^verbatim>\<open>A,B,2024/01/01\<close> has a second comma. Cut at
  its first comma it would give the title fragment \<^verbatim>\<open>A\<close> and the date fragment
  \<^verbatim>\<open>B,2024/01/01\<close>, and fail where the date is parsed; the code cuts it into three
  fragments and fails where they are unpacked into two names.
\<close>

theorem first_comma_split_counterexample:
  "line_to_event_tuple ''A,B,2024/01/01'' = Inl (UnpackError 3)
   \<and> split_first_comma ''A,B,2024/01/01'' = Some (''A'', ''B,2024/01/01'')
   \<and> spec_line_to_event ''A,B,2024/01/01'' = Inl (TimeDataMismatch ''B,2024/01/01'')"
  by code_simp

text \<open>
  Claim C2, amended. The line is cut at every comma and exactly two fragments are
  expected. A line with exactly one comma gives the text before the comma as the title
  fragment and the text after it as the date fragment. A line with no comma, and
  likewise a line with more than one comma, fails where the fragments are unpacked,
  before any date is parsed.
\<close>

theorem record_split_on_every_comma:
  "(CHR '','' \<notin> set t \<and> CHR '','' \<notin> set d \<longrightarrow>
      str_split CHR '','' (t @ CHR '','' # d) = [t, d]
      \<and> line_to_event_tuple (t @ CHR '','' # d) =
          (case strptime (strip d) of Inl e \<Rightarrow> Inl e | Inr b \<Rightarrow> Inr (t, b)))
   \<and> (length (filter (\<lambda>c. c = CHR '','') line) \<noteq> 1 \<longrightarrow>
      line_to_event_tuple line =
        Inl (UnpackError (Suc (length (filter (\<lambda>c. c = CHR '','') line)))))"
  using line_unpack_error line_one_comma str_split_one_sep by blast

theorem record_split_on_every_comma_witness:
  "CHR '','' \<notin> set ''A'' \<and> CHR '','' \<notin> set ''2024/01/01''
   \<and> str_split CHR '','' ''A,2024/01/01'' = [''A'', ''2024/01/01'']
   \<and> length (filter (\<lambda>c. c = CHR '','') ''No comma here'') \<noteq> 1
   \<and> line_to_event_tuple ''No comma here'' = Inl (UnpackError 1)
   \<and> length (filter (\<lambda>c. c = CHR '','') ''A,B,2024/01/01'') \<noteq> 1
   \<and> line_to_event_tuple ''A,B,2024/01/01'' = Inl (UnpackError 3)"
  using record_split_on_every_comma [of "''A''" "''2024/01/01''" "''No comma here''"]
    record_split_on_every_comma [of "''A''" "''2024/01/01''" "''A,B,2024/01/01''"]
  by simp

subsection \<open>Failure before the destination is opened\<close>

lemma add_events_error:
  "Inl err \<in> set events \<Longrightarrow> \<exists>err'. add_events e k events lines = Inl err'"
proof (induction events arbitrary: k lines)
  case Nil
  then show ?case by simp
next
  case (Cons ev events)
  show ?case
  proof (cases ev)
    case (Inl a)
    then show ?thesis by simp
  next
    case (Inr b)
    obtain n s where b: "b = (n, s)" by (cases b)
    from Cons.prems Inr have "Inl err \<in> set events" by auto
    from Cons.IH [OF this] show ?thesis
      using Inr b by (simp add: Let_def)
  qed
qed

lemma write_ics_file_error:
  assumes "Inl err \<in> set events"
  shows "\<exists>err'. write_ics_file e events dst title w = (Inl err', w)"
proof -
  obtain err' where "add_events e 0 events
     [''BEGIN:VCALENDAR'', ''VERSION:2.0'', ''PRODID:-//'' @ title @ ''//EN''] = Inl err'"
    using add_events_error [OF assms] by blast
  then show ?thesis
    by (simp add: write_ics_file_def ics_lines_def)
qed

text \<open>
  Claim C4, as stated, fails. The source file has a header and one record line without a
  comma; the destination \<^verbatim>\<open>out.ics\<close> exists with the text \<^verbatim>\<open>old\<close>. The conversion
  fails at the record line, and the destination still holds \<^verbatim>\<open>old\<close>: it has not been
  opened, so it is neither emptied nor truncated.
\<close>

theorem destination_not_opened_counterexample:
  "convert example_env cal_hol out_ics (world_of bad_record_text) =
     (Inl (UnpackError 1),
      print [''You can try to validate the resultant file using this webform:'',
             ''https://icalendar.org/validator.html''] (world_of bad_record_text))
   \<and> files (snd (convert example_env cal_hol out_ics (world_of bad_record_text))) out_ics
       = Some ''old''"
proof -
  have f: "files (world_of bad_record_text) cal_hol = Some bad_record_text"
    by (simp add: world_of_def cal_hol_def out_ics_def)
  have r: "readline bad_record_text = (''[T] 1'' @ [LF], ''No comma here'' @ [LF])"
    by (simp add: bad_record_text_def)
  have m: "re_match header_pattern (''[T] 1'' @ [LF]) =
      Some ([LF], [(''count'', ''1''), (''title'', ''T'')])"
    by code_simp
  have l: "readlines (''No comma here'' @ [LF]) = [''No comma here'' @ [LF]]"
    by simp
  have t: "line_to_event_tuple (''No comma here'' @ [LF]) = Inl (UnpackError 1)"
    by code_simp
  have c: "convert example_env cal_hol out_ics (world_of bad_record_text) =
     (Inl (UnpackError 1),
      print [''You can try to validate the resultant file using this webform:'',
             ''https://icalendar.org/validator.html''] (world_of bad_record_text))"
    using f r m l t
    by (simp add: convert_def read_hol_file_def header_found_def write_ics_file_def
        ics_lines_def group_def)
  show ?thesis
    unfolding c by (simp add: print_def world_of_def cal_hol_def out_ics_def)
qed

text \<open>
  Claim C4, amended. The loop of \<^verbatim>\<open>write_ics_file\<close> takes every record from the lazy
  sequence while the document is built in memory, and the destination is opened only
  after the loop. So when some record line of a source file with a valid header is
  malformed, the conversion fails and no file has changed: the destination is never
  opened, and no truncated file is left.
\<close>

theorem malformed_record_leaves_files_unchanged:
  assumes "files w src = Some text"
    and "re_match header_pattern (fst (readline text)) = Some m"
    and "line \<in> set (readlines (snd (readline text)))"
    and "line_to_event_tuple line = Inl err"
  shows "(\<exists>err'. fst (convert e src dst w) = Inl err')
    \<and> files (snd (convert e src dst w)) = files w"
proof -
  obtain header rest where hr: "readline text = (header, rest)"
    by (cases "readline text")
  let ?t = "group m ''title''"
  let ?events = "map line_to_event_tuple (readlines rest)"
  let ?w1 = "print [''You can try to validate the resultant file using this webform:'',
                      ''https://icalendar.org/validator.html''] w"
  have rd: "read_hol_file src w = (Inr (?t, ?events), ?w1)"
    using assms(1,2) hr by (simp add: read_hol_file_def header_found_def)
  have "Inl err \<in> set ?events"
    using assms(3,4) hr by (force simp: image_iff)
  then obtain err' where wr: "write_ics_file e ?events dst ?t ?w1 = (Inl err', ?w1)"
    using write_ics_file_error by blast
  have "convert e src dst w = (Inl err', ?w1)"
    using rd wr by (simp add: convert_def)
  then show ?thesis
    by (simp add: print_def)
qed

theorem malformed_record_leaves_files_unchanged_witness:
  "files (world_of bad_record_text) cal_hol = Some bad_record_text
   \<and> re_match header_pattern (fst (readline bad_record_text)) =
       Some ([LF], [(''count'', ''1''), (''title'', ''T'')])
   \<and> ''No comma here'' @ [LF] \<in> set (readlines (snd (readline bad_record_text)))
   \<and> line_to_event_tuple (''No comma here'' @ [LF]) = Inl (UnpackError 1)
   \<and> (\<exists>err'. fst (convert example_env cal_hol out_ics (world_of bad_record_text)) = Inl err')
   \<and> files (snd (convert example_env cal_hol out_ics (world_of bad_record_text))) =
       files (world_of bad_record_text)"
proof -
  have f: "files (world_of bad_record_text) cal_hol = Some bad_record_text"
    by (simp add: world_of_def cal_hol_def out_ics_def)
  have r: "readline bad_record_text = (''[T] 1'' @ [LF], ''No comma here'' @ [LF])"
    by (simp add: bad_record_text_def)
  have m0: "re_match header_pattern (''[T] 1'' @ [LF]) =
      Some ([LF], [(''count'', ''1''), (''title'', ''T'')])"
    by code_simp
  have m: "re_match header_pattern (fst (readline bad_record_text)) =
      Some ([LF], [(''count'', ''1''), (''title'', ''T'')])"
    using r m0 by simp
  have l: "''No comma here'' @ [LF] \<in> set (readlines (snd (readline bad_record_text)))"
    using r by simp
  have t: "line_to_event_tuple (''No comma here'' @ [LF]) = Inl (UnpackError 1)"
    by code_simp
  show ?thesis
    using f m l t
      malformed_record_leaves_files_unchanged [OF f m l t, of example_env out_ics]
    by simp
qed

subsection \<open>The destination document\<close>










lemma example_readline: "readline test_text =
    (''[Test] 2'' @ [LF], ''A,2024/01/01'' @ [LF] @ ''B,2024/12/31'' @ [LF])"
  by (simp add: test_text_def)

lemma example_header: "re_match header_pattern (''[Test] 2'' @ [LF]) =
      Some ([LF], [(''count'', ''2''), (''title'', ''Test'')])"
  by code_simp

lemma example_readlines: "readlines (''A,2024/01/01'' @ [LF] @ ''B,2024/12/31'' @ [LF]) =
      [''A,2024/01/01'' @ [LF], ''B,2024/12/31'' @ [LF]]"
  by simp

lemma example_record_a: "line_to_event_tuple (''A,2024/01/01'' @ [LF]) =
      Inr (''A'', \<lparr>year = 2024, month = 1, day = 1, hour = 0, minute = 0, second = 0\<rparr>)"
  by code_simp

lemma example_record_b: "line_to_event_tuple (''B,2024/12/31'' @ [LF]) =
      Inr (''B'', \<lparr>year = 2024, month = 12, day = 31, hour = 0, minute = 0, second = 0\<rparr>)"
  by code_simp

lemma zero_padded_2: "zero_padded 2 n = [digit_char (n div 10), digit_char n]"
  by (simp add: numeral_2_eq_2)

lemma zero_padded_4:
  "zero_padded 4 n =
     [digit_char (n div 10 div 10 div 10), digit_char (n div 10 div 10),
      digit_char (n div 10), digit_char n]"
proof -
  have e: "zero_padded (Suc (Suc (Suc (Suc 0)))) n =
     [digit_char (n div 10 div 10 div 10), digit_char (n div 10 div 10),
      digit_char (n div 10), digit_char n]"
    by simp
  have f: "(4::nat) = Suc (Suc (Suc (Suc 0)))"
    by simp
  show ?thesis
    unfolding f by (rule e)
qed

lemma decimal_one_digit: "n < 10 \<Longrightarrow> decimal n = [digit_char n]"
  by (subst decimal.simps) simp

lemma decimal_more_digits: "10 \<le> n \<Longrightarrow> decimal n = decimal (n div 10) @ [digit_char n]"
  by (subst decimal.simps) simp

lemma decimal_four_digits:
  assumes "1000 \<le> n" and "n \<le> 9999"
  shows "decimal n = zero_padded 4 n"
proof -
  have "10 \<le> n" and "10 \<le> n div 10" and "10 \<le> n div 10 div 10"
    and "n div 10 div 10 div 10 < 10"
    using assms by (simp_all add: less_eq_div_iff_mult_less_eq div_less_iff_less_mult)
  then show ?thesis
    by (simp add: zero_padded_4 decimal_more_digits decimal_one_digit)
qed

lemma year_of_four_digits:
  "1000 \<le> year d \<Longrightarrow> year d \<le> 9999 \<Longrightarrow> strftime_date d = yyyymmdd d"
  by (simp add: strftime_date_def yyyymmdd_def decimal_four_digits)

lemma example_date_a: "strftime_date \<lparr>year = 2024, month = 1, day = 1, hour = 0, minute = 0, second = 0\<rparr>
      = ''20240101''"
  by (simp add: year_of_four_digits yyyymmdd_def zero_padded_2 zero_padded_4 digit_char_def)

lemma example_date_b: "strftime_date \<lparr>year = 2024, month = 12, day = 31, hour = 0, minute = 0, second = 0\<rparr>
      = ''20241231''"
  by (simp add: year_of_four_digits yyyymmdd_def zero_padded_2 zero_padded_4 digit_char_def)

lemma example_file: "files (world_of test_text) cal_hol = Some test_text"
  by (simp add: world_of_def cal_hol_def out_ics_def)

lemma example_read:
  assumes "files w cal_hol = Some test_text"
  shows "read_hol_file cal_hol w
     = (Inr (''Test'',
          [Inr (''A'', \<lparr>year = 2024, month = 1, day = 1, hour = 0, minute = 0, second = 0\<rparr>),
           Inr (''B'', \<lparr>year = 2024, month = 12, day = 31, hour = 0, minute = 0, second = 0\<rparr>)]),
        print [''You can try to validate the resultant file using this webform:'',
               ''https://icalendar.org/validator.html''] w)"
  using assms example_readline example_header example_readlines example_record_a example_record_b
  by (simp add: read_hol_file_def header_found_def group_def)

lemma example_lines:
  "ics_lines e
     [Inr (''A'', \<lparr>year = 2024, month = 1, day = 1, hour = 0, minute = 0, second = 0\<rparr>),
      Inr (''B'', \<lparr>year = 2024, month = 12, day = 31, hour = 0, minute = 0, second = 0\<rparr>)]
     ''Test'' =
   Inr [''BEGIN:VCALENDAR'', ''VERSION:2.0'', ''PRODID:-//Test//EN'',
        ''BEGIN:VEVENT'', ''UID:'' @ uuid4 e 0, ''DTSTAMP:'' @ strftime_ics (now e 0),
        ''DTSTART;VALUE=DATE:20240101'', ''SUMMARY:A'', ''END:VEVENT'',
        ''BEGIN:VEVENT'', ''UID:'' @ uuid4 e 1, ''DTSTAMP:'' @ strftime_ics (now e 1),
        ''DTSTART;VALUE=DATE:20241231'', ''SUMMARY:B'', ''END:VEVENT'',
        ''END:VCALENDAR'']"
  using example_date_a example_date_b by (simp add: ics_lines_def Let_def)
















subsection \<open>What differs between two runs\<close>

lemma add_events_other_env:
  assumes "add_events e1 k events l1 = Inr ls1" and "list_all2 same_but_stamp l1 l2"
  shows "\<exists>ls2. add_events e2 k events l2 = Inr ls2 \<and> list_all2 same_but_stamp ls1 ls2"
  using assms
proof (induction events arbitrary: k l1 l2)
  case Nil
  then show ?case by simp
next
  case (Cons ev events)
  show ?case
  proof (cases ev)
    case (Inl a)
    with Cons.prems show ?thesis by simp
  next
    case (Inr b)
    obtain n d where b: "b = (n, d)" by (cases b)
    let ?b1 = "[''BEGIN:VEVENT'', ''UID:'' @ uuid4 e1 k, ''DTSTAMP:'' @ strftime_ics (now e1 k),
      ''DTSTART;VALUE=DATE:'' @ strftime_date d, ''SUMMARY:'' @ n, ''END:VEVENT'']"
    let ?b2 = "[''BEGIN:VEVENT'', ''UID:'' @ uuid4 e2 k, ''DTSTAMP:'' @ strftime_ics (now e2 k),
      ''DTSTART;VALUE=DATE:'' @ strftime_date d, ''SUMMARY:'' @ n, ''END:VEVENT'']"
    have blk: "list_all2 same_but_stamp ?b1 ?b2"
      by (simp add: same_but_stamp_def)
    have step: "list_all2 same_but_stamp (l1 @ ?b1) (l2 @ ?b2)"
      using Cons.prems(2) blk by (rule list_all2_appendI)
    have run: "add_events e1 (Suc k) events (l1 @ ?b1) = Inr ls1"
      using Cons.prems(1) Inr b by (simp add: Let_def)
    from Cons.IH [OF run step] show ?thesis
      using Inr b by (simp add: Let_def)
  qed
qed

lemma ics_lines_other_env:
  assumes "ics_lines e1 events title = Inr ls1"
  shows "\<exists>ls2. ics_lines e2 events title = Inr ls2 \<and> differ_only_in_uid_dtstamp ls1 ls2"
proof -
  let ?h = "[''BEGIN:VCALENDAR'', ''VERSION:2.0'', ''PRODID:-//'' @ title @ ''//EN'']"
  obtain b1 where b1: "add_events e1 0 events ?h = Inr b1" and ls1: "ls1 = b1 @ [''END:VCALENDAR'']"
    using assms by (auto simp: ics_lines_def split: sum.splits)
  have "list_all2 same_but_stamp ?h ?h"
    by (simp add: same_but_stamp_def)
  from add_events_other_env [OF b1 this]
  obtain b2 where b2: "add_events e2 0 events ?h = Inr b2" and r: "list_all2 same_but_stamp b1 b2"
    by blast
  have "list_all2 same_but_stamp (b1 @ [''END:VCALENDAR'']) (b2 @ [''END:VCALENDAR''])"
    using r by (rule list_all2_appendI) (simp add: same_but_stamp_def)
  then show ?thesis
    using b2 ls1 by (simp add: ics_lines_def differ_only_in_uid_dtstamp_def)
qed

text \<open>
  Claim C9. When one run of the conversion on a source file succeeds, a run with other
  identifiers and another clock succeeds on the same file as well; both write to the
  destination the CRLF-joined lines that \<^verbatim>\<open>write_ics_file\<close> built, and the two lists of
  lines agree line by line except in the \<open>UID\<close> and \<open>DTSTAMP\<close> lines. No other file
  differs, and the same lines are printed.
\<close>

theorem reruns_differ_only_in_uid_dtstamp:
  assumes "fst (convert e1 src dst w) = Inr ()"
  shows "\<exists>title events w' ls1 ls2.
      read_hol_file src w = (Inr (title, events), w')
    \<and> ics_lines e1 events title = Inr ls1
    \<and> ics_lines e2 events title = Inr ls2
    \<and> differ_only_in_uid_dtstamp ls1 ls2
    \<and> fst (convert e2 src dst w) = Inr ()
    \<and> files (snd (convert e1 src dst w)) = (files w)(dst \<mapsto> str_join CRLF ls1)
    \<and> files (snd (convert e2 src dst w)) = (files w)(dst \<mapsto> str_join CRLF ls2)
    \<and> stdout (snd (convert e1 src dst w)) = stdout (snd (convert e2 src dst w))"
proof -
  obtain title events w' where rd: "read_hol_file src w = (Inr (title, events), w')"
    using assms by (auto simp: convert_def split: prod.splits sum.splits)
  have fw: "files w' = files w"
    using rd by (auto simp: read_hol_file_def header_found_def print_def
        split: option.splits prod.splits)
  obtain ls1 where l1: "ics_lines e1 events title = Inr ls1"
    using assms rd by (auto simp: convert_def write_ics_file_def split: sum.splits)
  obtain ls2 where l2: "ics_lines e2 events title = Inr ls2"
    and d: "differ_only_in_uid_dtstamp ls1 ls2"
    using ics_lines_other_env [OF l1] by blast
  have c1: "convert e1 src dst w = (Inr (), writelines dst (str_join CRLF ls1) (open_w dst w'))"
    using rd l1 by (simp add: convert_def write_ics_file_def)
  have c2: "convert e2 src dst w = (Inr (), writelines dst (str_join CRLF ls2) (open_w dst w'))"
    using rd l2 by (simp add: convert_def write_ics_file_def)
  show ?thesis
    using rd l1 l2 d fw by (simp add: c1 c2 writelines_def open_w_def)
qed

theorem reruns_differ_only_in_uid_dtstamp_witness:
  "fst (convert example_env cal_hol cal_ics (world_of test_text)) = Inr ()
   \<and> (\<exists>title events w' ls1 ls2.
        read_hol_file cal_hol (world_of test_text) = (Inr (title, events), w')
      \<and> ics_lines example_env events title = Inr ls1
      \<and> ics_lines other_env events title = Inr ls2
      \<and> differ_only_in_uid_dtstamp ls1 ls2
      \<and> fst (convert other_env cal_hol cal_ics (world_of test_text)) = Inr ()
      \<and> files (snd (convert example_env cal_hol cal_ics (world_of test_text))) =
          (files (world_of test_text))(cal_ics \<mapsto> str_join CRLF ls1)
      \<and> files (snd (convert other_env cal_hol cal_ics (world_of test_text))) =
          (files (world_of test_text))(cal_ics \<mapsto> str_join CRLF ls2)
      \<and> stdout (snd (convert example_env cal_hol cal_ics (world_of test_text))) =
          stdout (snd (convert other_env cal_hol cal_ics (world_of test_text))))"
proof -
  have h: "fst (convert example_env cal_hol cal_ics (world_of test_text)) = Inr ()"
    unfolding convert_def example_read [OF example_file]
    by (simp only: prod.case sum.case write_ics_file_def example_lines Let_def) simp
  show ?thesis
    using h reruns_differ_only_in_uid_dtstamp [OF h, of other_env] by simp
qed

subsection \<open>The matcher on the header pattern\<close>

lemma space_not_digit: "is_space c \<Longrightarrow> \<not> is_digit c"
  by (auto simp: is_space_def is_digit_def)

lemma in_range_digit: "in_range CHR ''0'' CHR ''9'' c = is_digit c"
  by (simp add: in_range_def is_digit_def)

lemma greedy_parts: "(p, r) \<in> set (greedy P s) \<Longrightarrow> p @ r = s \<and> list_all P p"
  by (induction s arbitrary: p r) (auto split: if_splits)

lemma greedy_not_Nil: "greedy P s \<noteq> []"
  by (cases s) auto

lemma greedy_first: "\<exists>rest. greedy P s = (takeWhile P s, dropWhile P s) # rest"
  by (induction s) auto

lemma star_one_char:
  "length s \<le> n \<Longrightarrow> star_iter (one_char P) n (s, c) = map (\<lambda>(p, r). (r, c)) (greedy P s)"
proof (induction n arbitrary: s)
  case 0
  then show ?case by simp
next
  case (Suc n)
  show ?case
  proof (cases s)
    case Nil
    have "one_char P ([], c) = []"
      by (simp add: one_char_def)
    then show ?thesis using Nil by simp
  next
    case (Cons x xs)
    have "length xs \<le> n" using Suc.prems Cons by simp
    then have "star_iter (one_char P) n (xs, c) = map (\<lambda>(p, r). (r, c)) (greedy P xs)"
      by (rule Suc.IH)
    moreover have "one_char P (x # xs, c) = (if P x then [(xs, c)] else [])"
      by (simp add: one_char_def)
    ultimately show ?thesis
      using Cons by (simp add: comp_def case_prod_unfold)
  qed
qed

lemma concat_greedy:
  assumes "\<And>x xs. P x \<Longrightarrow> f (x # xs) = []"
  shows "concat (map (\<lambda>(p, r). f r) (greedy P s)) = f (dropWhile P s)"
  using assms by (induction s) (auto simp: comp_def case_prod_unfold)


lemma rmatch_star_atom:
  assumes "\<And>st. rmatch A st = one_char P st"
  shows "rmatch (Star A) (s, c) = map (\<lambda>(p, r). (r, c)) (greedy P s)"
proof -
  have "rmatch A = one_char P"
    using assms by (intro ext)
  then show ?thesis
    by (simp add: star_one_char)
qed

lemma rmatch_plus_atom:
  assumes "\<And>st. rmatch A st = one_char P st"
  shows "rmatch (Plus A) (s, c) =
    (case s of [] \<Rightarrow> [] | x # xs \<Rightarrow> if P x then map (\<lambda>(p, r). (r, c)) (greedy P xs) else [])"
proof (cases s)
  case Nil
  then show ?thesis
    by (simp add: Plus_def assms one_char_def)
next
  case (Cons x xs)
  have "rmatch (Plus A) (s, c) = concat (map (rmatch (Star A)) (one_char P (s, c)))"
    by (simp add: Plus_def assms)
  also have "one_char P (s, c) = (if P x then [(xs, c)] else [])"
    using Cons by (simp add: one_char_def)
  finally show ?thesis
    using Cons by (simp add: rmatch_star_atom [OF assms] del: rmatch.simps)
qed

lemma rmatch_grp_plus_atom:
  assumes "\<And>st. rmatch A st = one_char P st"
  shows "rmatch (Grp g (Plus A)) (s, c) =
    (case s of [] \<Rightarrow> []
     | x # xs \<Rightarrow> if P x then map (\<lambda>(p, r). (r, (g, x # p) # c)) (greedy P xs) else [])"
proof (cases s)
  case Nil
  then show ?thesis
    by (simp add: rmatch_plus_atom [OF assms] del: rmatch.simps(6,8))
next
  case (Cons x xs)
  show ?thesis
  proof (cases "P x")
    case False
    then show ?thesis
      using Cons by (simp add: rmatch_plus_atom [OF assms] del: rmatch.simps(6,8))
  next
    case True
    have "map (\<lambda>st'. (fst st', (g, take (length (x # xs) - length (fst st')) (x # xs)) # snd st'))
            (map (\<lambda>(p, r). (r, c)) (greedy P xs))
        = map (\<lambda>(p, r). (r, (g, x # p) # c)) (greedy P xs)"
    proof -
      have "take (length (x # xs) - length r) (x # xs) = x # p"
        if "(p, r) \<in> set (greedy P xs)" for p r
      proof -
        have "p @ r = xs" using greedy_parts [OF that] by simp
        then have "length (x # xs) - length r = Suc (length p)" by auto
        then show ?thesis using \<open>p @ r = xs\<close> by auto
      qed
      then show ?thesis
        by (auto simp: comp_def case_prod_unfold)
    qed
    then show ?thesis
      using Cons True by (simp add: rmatch_plus_atom [OF assms] del: rmatch.simps(6,8))
  qed
qed

lemma count_group_match:
  "rmatch (Grp ''count'' (Plus (Rng CHR ''0'' CHR ''9''))) (s, c) =
    (case s of [] \<Rightarrow> []
     | x # xs \<Rightarrow> if is_digit x
         then map (\<lambda>(p, r). (r, (''count'', x # p) # c)) (greedy is_digit xs) else [])"
proof -
  have a: "rmatch (Rng CHR ''0'' CHR ''9'') st = one_char is_digit st" for st
    by (simp add: one_char_def in_range_digit split: list.splits)
  show ?thesis
    by (rule rmatch_grp_plus_atom [OF a])
qed

lemma title_group_match:
  "rmatch (Grp ''title'' (Plus Dot)) (s, c) =
    (case s of [] \<Rightarrow> []
     | x # xs \<Rightarrow> if x \<noteq> LF
         then map (\<lambda>(p, r). (r, (''title'', x # p) # c)) (greedy (\<lambda>c. c \<noteq> LF) xs) else [])"
proof -
  have a: "rmatch Dot st = one_char (\<lambda>c. c \<noteq> LF) st" for st
    by simp
  show ?thesis
    by (rule rmatch_grp_plus_atom [OF a])
qed

lemma header_tail_match:
  "rmatch header_tail (r, c) =
    (case r of [] \<Rightarrow> []
     | b # r1 \<Rightarrow> if b = CHR '']''
         then rmatch (Grp ''count'' (Plus (Rng CHR ''0'' CHR ''9''))) (dropWhile is_space r1, c)
         else [])"
proof (cases r)
  case Nil
  then show ?thesis
    by (simp add: header_tail_def one_char_def)
next
  case (Cons b r1)
  let ?G = "Grp ''count'' (Plus (Rng CHR ''0'' CHR ''9''))"
  have a: "rmatch Ws st = one_char is_space st" for st
    by simp
  have g: "rmatch ?G (x # xs, c) = []" if "is_space x" for x xs
    using space_not_digit [OF that] by (simp add: count_group_match del: rmatch.simps)
  have "rmatch (Seq (Star Ws) ?G) (r1, c) =
      concat (map (\<lambda>(p, r). rmatch ?G (r, c)) (greedy is_space r1))"
    by (simp add: rmatch_star_atom [OF a] comp_def case_prod_unfold del: rmatch.simps(8,9))
  also have "\<dots> = rmatch ?G (dropWhile is_space r1, c)"
    by (rule concat_greedy [where f = "\<lambda>r. rmatch ?G (r, c)"]) (rule g)
  finally have s: "rmatch (Seq (Star Ws) ?G) (r1, c) = rmatch ?G (dropWhile is_space r1, c)" .
  have "rmatch header_tail (r, c) =
      concat (map (rmatch (Seq (Star Ws) ?G)) (one_char (\<lambda>x. x = CHR '']'') (r, c)))"
    unfolding header_tail_def by (simp only: rmatch.simps(1,6))
  also have "one_char (\<lambda>x. x = CHR '']'') (r, c) = (if b = CHR '']'' then [(r1, c)] else [])"
    using Cons by (simp add: one_char_def)
  finally show ?thesis
    using Cons s by (simp del: rmatch.simps)
qed

lemma header_tail_empty: "(rmatch header_tail (r, c) = []) = (\<not> tail_ok r)"
proof (cases r)
  case Nil
  then show ?thesis
    by (simp add: header_tail_match tail_ok_def del: rmatch.simps)
next
  case (Cons b r1)
  show ?thesis
  proof (cases "dropWhile is_space r1")
    case Nil
    then show ?thesis
      using Cons
      by (simp add: header_tail_match count_group_match tail_ok_def
          del: rmatch.simps dropWhile_eq_Nil_conv)
  next
    case (Cons d ds)
    then show ?thesis
      using \<open>r = b # r1\<close>
      by (simp add: header_tail_match count_group_match tail_ok_def greedy_not_Nil
          del: rmatch.simps)
  qed
qed

lemma header_tail_first:
  assumes "tail_ok r"
  shows "\<exists>rest. rmatch header_tail (r, c) =
    (dropWhile is_digit (dropWhile is_space (tl r)),
     (''count'', takeWhile is_digit (dropWhile is_space (tl r))) # c) # rest"
proof -
  obtain r1 d ds where r: "r = CHR '']'' # r1" and d: "dropWhile is_space r1 = d # ds"
    and dig: "is_digit d"
    using assms by (auto simp: tail_ok_def split: list.splits)
  obtain rest where g: "greedy is_digit ds = (takeWhile is_digit ds, dropWhile is_digit ds) # rest"
    using greedy_first by blast
  show ?thesis
    using r d dig g by (simp add: header_tail_match count_group_match del: rmatch.simps)
qed


lemma first_success_none:
  assumes "\<And>q r. (f (q, r) = []) = (\<not> Q r)"
  shows "longest P Q xs = None \<Longrightarrow> concat (map (\<lambda>(p, r). f (u @ p, r)) (greedy P xs)) = []"
proof (induction xs arbitrary: u)
  case Nil
  then show ?case
    using assms by (simp split: if_splits)
next
  case (Cons y ys)
  have here: "f (u, y # ys) = []"
    using Cons.prems assms by (auto split: if_splits option.splits)
  show ?case
  proof (cases "P y")
    case False
    then show ?thesis using here by simp
  next
    case True
    then have "longest P Q ys = None"
      using Cons.prems by (auto split: option.splits if_splits)
    from Cons.IH [OF this, of "u @ [y]"] show ?thesis
      using True here by (simp add: comp_def case_prod_unfold)
  qed
qed

lemma first_success_some:
  assumes "\<And>q r. (f (q, r) = []) = (\<not> Q r)"
  shows "longest P Q xs = Some (p, r) \<Longrightarrow>
    \<exists>rest. concat (map (\<lambda>(p, r). f (u @ p, r)) (greedy P xs)) = f (u @ p, r) @ rest"
proof (induction xs arbitrary: u p r)
  case Nil
  then show ?case
    by (simp split: if_splits)
next
  case (Cons y ys)
  show ?case
  proof (cases "if P y then longest P Q ys else None")
    case None
    then have pr: "p = []" "r = y # ys"
      using Cons.prems by (auto split: if_splits)
    have "concat (map (\<lambda>(p, r). f (u @ p, r)) (greedy P (y # ys))) = f (u, y # ys)"
    proof (cases "P y")
      case False
      then show ?thesis by simp
    next
      case True
      then have "longest P Q ys = None" using None by simp
      from first_success_none [OF assms this, of "u @ [y]"] show ?thesis
        using True by (simp add: comp_def case_prod_unfold)
    qed
    then show ?thesis using pr by simp
  next
    case (Some a)
    obtain p1 r1 where a: "a = (p1, r1)" by (cases a)
    have py: "P y" and l: "longest P Q ys = Some (p1, r1)"
      using Some a by (auto split: if_splits)
    have pr: "p = y # p1" "r = r1"
      using Cons.prems py l by auto
    from Cons.IH [OF l, of "u @ [y]"] obtain rest where
      "concat (map (\<lambda>(p, r). f ((u @ [y]) @ p, r)) (greedy P ys)) = f ((u @ [y]) @ p1, r1) @ rest"
      by blast
    then show ?thesis
      using py pr by (simp add: comp_def case_prod_unfold)
  qed
qed

lemma longest_parts:
  "longest P Q xs = Some (p, r) \<Longrightarrow> xs = p @ r \<and> list_all P p \<and> Q r"
proof (induction xs arbitrary: p r)
  case Nil
  then show ?case by (simp split: if_splits)
next
  case (Cons y ys)
  show ?case
  proof (cases "if P y then longest P Q ys else None")
    case None
    then show ?thesis using Cons.prems by (auto split: if_splits)
  next
    case (Some a)
    obtain p1 r1 where a: "a = (p1, r1)" by (cases a)
    have py: "P y" and l: "longest P Q ys = Some (p1, r1)"
      using Some a by (auto split: if_splits)
    have "p = y # p1" "r = r1"
      using Cons.prems py l by auto
    then show ?thesis
      using Cons.IH [OF l] py by simp
  qed
qed

lemma longest_max:
  "xs = p' @ r' \<Longrightarrow> list_all P p' \<Longrightarrow> Q r' \<Longrightarrow>
     \<exists>p r. longest P Q xs = Some (p, r) \<and> length p' \<le> length p"
proof (induction xs arbitrary: p')
  case Nil
  then show ?case by simp
next
  case (Cons y ys)
  show ?case
  proof (cases p')
    case Nil
    then have "Q (y # ys)" using Cons.prems by simp
    then show ?thesis
      using Nil by (auto split: option.splits)
  next
    case (Cons a p'')
    then have ay: "a = y" and ys: "ys = p'' @ r'" and py: "P y" and ap: "list_all P p''"
      using Cons.prems by auto
    from Cons.IH [OF ys ap Cons.prems(3)] obtain p r where
      "longest P Q ys = Some (p, r)" "length p'' \<le> length p"
      by blast
    then show ?thesis
      using py Cons by simp
  qed
qed

lemma longest_exact:
  assumes "list_all P p" and "Q R"
    and "\<And>p' r'. R = p' @ r' \<Longrightarrow> p' \<noteq> [] \<Longrightarrow> list_all P p' \<Longrightarrow> \<not> Q r'"
  shows "longest P Q (p @ R) = Some (p, R)"
proof -
  obtain p2 r2 where l: "longest P Q (p @ R) = Some (p2, r2)" and len: "length p \<le> length p2"
    using longest_max [of "p @ R" p R P Q] assms(1,2) by blast
  have parts: "p @ R = p2 @ r2" "list_all P p2" "Q r2"
    using longest_parts [OF l] by auto
  obtain p' where p2: "p2 = p @ p'" and R: "R = p' @ r2"
    using parts(1) len by (auto simp: append_eq_append_conv2 dest: sym)
  have "p' = []"
  proof (rule ccontr)
    assume "p' \<noteq> []"
    moreover have "list_all P p'" using parts(2) p2 by simp
    ultimately show False using assms(3) [OF R] parts(3) by blast
  qed
  then show ?thesis using l p2 R by simp
qed

lemma longest_exact_conv:
  assumes "longest P Q (p @ R) = Some (p, R)" and "R = p' @ r'" and "p' \<noteq> []"
    and "list_all P p'"
  shows "\<not> Q r'"
proof
  assume q: "Q r'"
  have lp: "list_all P p" using longest_parts [OF assms(1)] by simp
  have "p @ R = (p @ p') @ r'" using assms(2) by simp
  moreover have "list_all P (p @ p')" using lp assms(4) by simp
  ultimately obtain p2 r2 where "longest P Q (p @ R) = Some (p2, r2)"
    and "length (p @ p') \<le> length p2"
    using longest_max [of "p @ R" "p @ p'" r' P Q] q by blast
  then show False using assms(1,3) by simp
qed

lemma header_pattern_split:
  "header_pattern = Seq (Chr CHR ''['') (Seq (Grp ''title'' (Plus Dot)) header_tail)"
  by (simp add: header_pattern_def header_tail_def)

lemma title_then_tail:
  "rmatch (Seq (Grp ''title'' (Plus Dot)) header_tail) (body, []) =
    (case body of [] \<Rightarrow> []
     | x # xs \<Rightarrow> if x \<noteq> LF
         then concat (map (\<lambda>(p, r). rmatch header_tail (r, [(''title'', [x] @ p)]))
                (greedy (\<lambda>c. c \<noteq> LF) xs))
         else [])"
proof -
  have "rmatch (Seq (Grp ''title'' (Plus Dot)) header_tail) (body, []) =
      concat (map (rmatch header_tail) (rmatch (Grp ''title'' (Plus Dot)) (body, [])))"
    by (simp only: rmatch.simps(6))
  then show ?thesis
    by (simp add: title_group_match comp_def case_prod_unfold del: rmatch.simps
        split: list.splits)
qed

lemma header_match:
  "re_match header_pattern s =
    (case s of [] \<Rightarrow> None
     | b # body \<Rightarrow>
        (case body of [] \<Rightarrow> None
         | x # xs \<Rightarrow>
            if b = CHR ''['' \<and> x \<noteq> LF then
              (case longest (\<lambda>c. c \<noteq> LF) tail_ok xs of
                 None \<Rightarrow> None
               | Some (p, r) \<Rightarrow>
                   Some (dropWhile is_digit (dropWhile is_space (tl r)),
                         [(''count'', takeWhile is_digit (dropWhile is_space (tl r))),
                          (''title'', x # p)]))
            else None))"
proof -
  let ?T = "Seq (Grp ''title'' (Plus Dot)) header_tail"
  have open_bracket: "rmatch header_pattern (s, []) =
      concat (map (rmatch ?T) (one_char (\<lambda>c. c = CHR ''['') (s, [])))"
    unfolding header_pattern_split by (simp only: rmatch.simps(1,6))
  show ?thesis
  proof (cases s)
    case Nil
    then show ?thesis
      using open_bracket by (simp add: re_match_def one_char_def del: rmatch.simps)
  next
    case s: (Cons b body)
    show ?thesis
    proof (cases "b = CHR ''[''")
      case False
      then show ?thesis
        using open_bracket s
        by (simp add: re_match_def one_char_def del: rmatch.simps split: list.splits)
    next
      case b: True
      have whole: "rmatch header_pattern (s, []) = rmatch ?T (body, [])"
        using open_bracket s b by (simp add: one_char_def del: rmatch.simps)
      show ?thesis
      proof (cases body)
        case Nil
        then show ?thesis
          using whole s by (simp add: re_match_def title_then_tail del: rmatch.simps)
      next
        case body: (Cons x xs)
        show ?thesis
        proof (cases "x = LF")
          case True
          then show ?thesis
            using whole s body by (simp add: re_match_def title_then_tail del: rmatch.simps)
        next
          case x: False
          define f where "f = (\<lambda>(q, r). rmatch header_tail (r, [(''title'', q)]))"
          have e: "(f (q, r) = []) = (\<not> tail_ok r)" for q r
            by (simp add: f_def header_tail_empty del: rmatch.simps)
          have run: "rmatch header_pattern (s, []) =
              concat (map (\<lambda>(p, r). f ([x] @ p, r)) (greedy (\<lambda>c. c \<noteq> LF) xs))"
            using whole body x by (simp add: title_then_tail f_def del: rmatch.simps)
          show ?thesis
          proof (cases "longest (\<lambda>c. c \<noteq> LF) tail_ok xs")
            case None
            have "rmatch header_pattern (s, []) = []"
              unfolding run by (rule first_success_none [of f tail_ok, OF e None])
            then show ?thesis
              using s body b x None by (simp add: re_match_def del: rmatch.simps)
          next
            case (Some a)
            obtain p r where a: "a = (p, r)" by (cases a)
            have l: "longest (\<lambda>c. c \<noteq> LF) tail_ok xs = Some (p, r)"
              using Some a by simp
            have "\<exists>rest. rmatch header_pattern (s, []) = f ([x] @ p, r) @ rest"
              unfolding run by (rule first_success_some [of f tail_ok, OF e l])
            then obtain rest where
              r1: "rmatch header_pattern (s, []) = f ([x] @ p, r) @ rest"
              by blast
            have "tail_ok r"
              using longest_parts [OF l] by simp
            from header_tail_first [OF this, of "[(''title'', x # p)]"] obtain rest2 where
              "f ([x] @ p, r) =
                 (dropWhile is_digit (dropWhile is_space (tl r)),
                  [(''count'', takeWhile is_digit (dropWhile is_space (tl r))),
                   (''title'', x # p)]) # rest2"
              by (auto simp: f_def simp del: rmatch.simps)
            then show ?thesis
              using r1 s body b x l by (simp add: re_match_def del: rmatch.simps)
          qed
        qed
      qed
    qed
  qed
qed

lemma readline_append:
  "LF \<notin> set u \<Longrightarrow> readline (u @ v) = (u @ fst (readline v), snd (readline v))"
  by (induction u) (auto split: prod.splits)

lemma readline_first_line:
  "fst (readline s) = u @ v \<Longrightarrow> v \<noteq> [] \<Longrightarrow> LF \<notin> set u"
proof (induction s arbitrary: u)
  case Nil
  then show ?case by simp
next
  case (Cons c cs)
  show ?case
  proof (cases "c = LF")
    case True
    then have "u @ v = [c]" using Cons.prems(1) by simp
    then have "u = []" using Cons.prems(2) by (cases u) auto
    then show ?thesis by simp
  next
    case False
    then have f: "c # fst (readline cs) = u @ v"
      using Cons.prems(1) by (simp split: prod.splits)
    show ?thesis
    proof (cases u)
      case Nil
      then show ?thesis by simp
    next
      case (Cons a u')
      then have "a = c" and "fst (readline cs) = u' @ v" using f by auto
      then show ?thesis
        using Cons.IH [of u'] Cons.prems(2) False Cons by simp
    qed
  qed
qed

lemma spaces_to_line_end:
  "list_all is_space ws \<Longrightarrow> LF \<in> set ws \<Longrightarrow> dropWhile is_space (fst (readline (ws @ v))) = []"
proof (induction ws)
  case Nil
  then show ?case by simp
next
  case (Cons c ws)
  show ?case
  proof (cases "c = LF")
    case True
    then show ?thesis using Cons.prems by simp
  next
    case False
    then show ?thesis
      using Cons by (simp split: prod.splits)
  qed
qed

lemma digit_not_space: "is_digit x \<Longrightarrow> \<not> is_space x"
  using space_not_digit by blast

lemma digit_not_LF: "is_digit x \<Longrightarrow> x \<noteq> LF"
  by (auto simp: is_digit_def)

lemma tail_ok_bracket: "tail_ok r \<Longrightarrow> \<exists>r1. r = CHR '']'' # r1"
  by (auto simp: tail_ok_def split: list.splits)

lemma tail_ok_count:
  "tail_ok (CHR '']'' # r1) \<Longrightarrow> takeWhile is_digit (dropWhile is_space r1) \<noteq> []"
  by (auto simp: tail_ok_def split: list.splits)

lemma tail_ok_intro:
  assumes "list_all is_space ws" and "ds \<noteq> []" and "list_all is_digit ds"
  shows "tail_ok (CHR '']'' # ws @ ds @ junk)"
proof -
  obtain d ds' where ds: "ds = d # ds'" using assms(2) by (cases ds) auto
  have d: "is_digit d" using assms(3) ds by simp
  have "dropWhile is_space (ws @ ds @ junk) = dropWhile is_space (ds @ junk)"
    using assms(1) by (simp add: list_all_iff)
  also have "\<dots> = d # ds' @ junk"
    using ds digit_not_space [OF d] by simp
  finally show ?thesis
    using d by (simp add: tail_ok_def)
qed

lemma header_matchI:
  assumes "x \<noteq> LF" and "longest (\<lambda>c. c \<noteq> LF) tail_ok xs = Some (p, r)"
  shows "re_match header_pattern (CHR ''['' # x # xs) =
    Some (dropWhile is_digit (dropWhile is_space (tl r)),
          [(''count'', takeWhile is_digit (dropWhile is_space (tl r))), (''title'', x # p)])"
  using assms by (simp add: header_match)

lemma header_matchD:
  assumes "re_match header_pattern s = Some m"
  shows "\<exists>x p r1. s = CHR ''['' # x # p @ CHR '']'' # r1 \<and> x \<noteq> LF
    \<and> longest (\<lambda>c. c \<noteq> LF) tail_ok (p @ CHR '']'' # r1) = Some (p, CHR '']'' # r1)
    \<and> m = (dropWhile is_digit (dropWhile is_space r1),
           [(''count'', takeWhile is_digit (dropWhile is_space r1)), (''title'', x # p)])"
proof -
  obtain b x xs where s: "s = b # x # xs"
    using assms by (auto simp: header_match split: list.splits)
  have b: "b = CHR ''[''" and x: "x \<noteq> LF"
    using assms s by (auto simp: header_match split: if_splits)
  obtain p r where l: "longest (\<lambda>c. c \<noteq> LF) tail_ok xs = Some (p, r)"
    using assms s b x by (auto simp: header_match split: option.splits)
  have m: "m = (dropWhile is_digit (dropWhile is_space (tl r)),
           [(''count'', takeWhile is_digit (dropWhile is_space (tl r))), (''title'', x # p)])"
    using assms s b x l by (simp add: header_match)
  have parts: "xs = p @ r" "tail_ok r"
    using longest_parts [OF l] by auto
  obtain r1 where r: "r = CHR '']'' # r1"
    using tail_ok_bracket [OF parts(2)] by blast
  show ?thesis
    using s b x l m parts r by auto
qed

lemma longest_replace:
  assumes l: "longest P Q (p @ A1 @ L) = Some (p, A1 @ L)"
    and q: "Q (A2 @ L)"
    and a1: "A1 \<noteq> []" "list_all P A1"
    and inner: "\<And>a b. A2 = a @ b \<Longrightarrow> a \<noteq> [] \<Longrightarrow> b \<noteq> [] \<Longrightarrow> \<not> Q (b @ L)"
  shows "longest P Q (p @ A2 @ L) = Some (p, A2 @ L)"
proof (rule longest_exact)
  show "list_all P p" using longest_parts [OF l] by simp
  show "Q (A2 @ L)" by (rule q)
  fix p' r'
  assume split: "A2 @ L = p' @ r'" and ne: "p' \<noteq> []" and all: "list_all P p'"
  from split consider
      (inside) b where "A2 = p' @ b" "r' = b @ L"
    | (after) l1 where "p' = A2 @ l1" "L = l1 @ r'"
    by (auto simp: append_eq_append_conv2)
  then show "\<not> Q r'"
  proof cases
    case inside
    show ?thesis
    proof (cases "b = []")
      case True
      then have "r' = L" using inside by simp
      moreover have "\<not> Q L"
        using longest_exact_conv [OF l, of A1 L] a1 by simp
      ultimately show ?thesis by simp
    next
      case False
      then show ?thesis
        using inner [OF inside(1) ne] inside(2) by simp
    qed
  next
    case after
    have "list_all P l1" using all after(1) by simp
    then have "list_all P (A1 @ l1)" using a1(2) by simp
    moreover have "A1 @ L = (A1 @ l1) @ r'" using after(2) by simp
    moreover have "A1 @ l1 \<noteq> []" using a1(1) by simp
    ultimately show ?thesis
      using longest_exact_conv [OF l, of "A1 @ l1" r'] by blast
  qed
qed

subsection \<open>Headers with text after the count\<close>

lemma read_hol_file_matched:
  assumes "files w src = Some text"
    and "re_match header_pattern (fst (readline text)) = Some m"
  shows "fst (read_hol_file src w) =
    Inr (group m ''title'', map line_to_event_tuple (readlines (snd (readline text))))"
  using assms by (cases "readline text") (simp add: read_hol_file_def header_found_def)

text \<open>
  Claim C10. The header is matched at the start of the first line and need not reach
  its end. Whenever the first line of the source file is an opening bracket, at least
  one character \<open>t\<close>, a closing bracket, white space \<open>ws\<close>, at least one decimal digit
  \<open>ds\<close> and any further text, the pattern matches and \<^verbatim>\<open>read_hol_file\<close> returns the
  title with the events of the remaining lines. The match has itself this shape: its
  title, a closing bracket, white space, its count of one or more digits, and the unread
  text. Its title is at least as long as \<open>t\<close>, for every such way \<open>t\<close> to read the line:
  the title extends to the last closing bracket that white space and a digit follow.
  The line \<^verbatim>\<open>[T] 12 trailing junk\<close> matches with the title \<^verbatim>\<open>T\<close> and the count \<^verbatim>\<open>12\<close>.
\<close>

theorem header_match_is_prefix_match:
  assumes "files w src = Some text"
    and "fst (readline text) = CHR ''['' # t @ CHR '']'' # ws @ ds @ junk"
    and "t \<noteq> []" and "list_all is_space ws" and "ds \<noteq> []" and "list_all is_digit ds"
  shows "\<exists>m ws'. re_match header_pattern (fst (readline text)) = Some m
      \<and> fst (readline text) =
          CHR ''['' # group m ''title'' @ CHR '']'' # ws' @ group m ''count'' @ fst m
      \<and> list_all is_space ws'
      \<and> group m ''count'' \<noteq> [] \<and> list_all is_digit (group m ''count'')
      \<and> length t \<le> length (group m ''title'')
      \<and> fst (read_hol_file src w) =
          Inr (group m ''title'', map line_to_event_tuple (readlines (snd (readline text))))
      \<and> re_match header_pattern ''[T] 12 trailing junk'' =
          Some ('' trailing junk'', [(''count'', ''12''), (''title'', ''T'')])"
proof -
  obtain x t0 where t: "t = x # t0"
    using assms(3) by (cases t) auto
  have "fst (readline text) = (CHR ''['' # t @ CHR '']'' # ws) @ (ds @ junk)"
    using assms(2) by simp
  then have "LF \<notin> set (CHR ''['' # t @ CHR '']'' # ws)"
    by (rule readline_first_line) (use assms(5) in simp)
  then have no_lf: "x \<noteq> LF" "list_all (\<lambda>c. c \<noteq> LF) t0"
    using t by (auto simp: list_all_iff)
  have ok: "tail_ok (CHR '']'' # ws @ ds @ junk)"
    using assms(4-6) by (rule tail_ok_intro)
  obtain p r where l: "longest (\<lambda>c. c \<noteq> LF) tail_ok (t0 @ CHR '']'' # ws @ ds @ junk) = Some (p, r)"
    and len: "length t0 \<le> length p"
    using longest_max [of "t0 @ CHR '']'' # ws @ ds @ junk" t0 "CHR '']'' # ws @ ds @ junk"
        "\<lambda>c. c \<noteq> LF" tail_ok] no_lf(2) ok
    by blast
  have parts: "t0 @ CHR '']'' # ws @ ds @ junk = p @ r" "tail_ok r"
    using longest_parts [OF l] by auto
  obtain r1 where r: "r = CHR '']'' # r1"
    using tail_ok_bracket [OF parts(2)] by blast
  define m where "m = (dropWhile is_digit (dropWhile is_space r1),
      [(''count'', takeWhile is_digit (dropWhile is_space r1)), (''title'', x # p)])"
  have h: "fst (readline text) = CHR ''['' # x # t0 @ CHR '']'' # ws @ ds @ junk"
    using assms(2) t by simp
  have found: "re_match header_pattern (fst (readline text)) = Some m"
    unfolding h m_def using header_matchI [OF no_lf(1) l] r by simp
  have title: "group m ''title'' = x # p" and count: "group m ''count'' = takeWhile is_digit (dropWhile is_space r1)"
    by (simp_all add: m_def group_def)
  have "r1 = takeWhile is_space r1 @ takeWhile is_digit (dropWhile is_space r1)
      @ dropWhile is_digit (dropWhile is_space r1)"
    by simp
  then have line: "fst (readline text) =
      CHR ''['' # group m ''title'' @ CHR '']'' # takeWhile is_space r1 @ group m ''count'' @ fst m"
    using h parts(1) r title count by (simp add: m_def)
  have sp: "list_all is_space (takeWhile is_space r1)"
    by (auto simp: list_all_iff dest: set_takeWhileD)
  have dg: "list_all is_digit (group m ''count'')"
    unfolding count by (auto simp: list_all_iff dest: set_takeWhileD)
  have ne: "group m ''count'' \<noteq> []"
    unfolding count using parts(2) r by (intro tail_ok_count) simp
  have "length t \<le> length (group m ''title'')"
    using len t title by simp
  moreover have "re_match header_pattern ''[T] 12 trailing junk'' =
      Some ('' trailing junk'', [(''count'', ''12''), (''title'', ''T'')])"
    by code_simp
  ultimately show ?thesis
    using found line sp dg ne read_hol_file_matched [OF assms(1) found] by blast
qed

theorem header_match_is_prefix_match_witness:
  "files (world_of bracket_text) cal_hol = Some bracket_text
   \<and> fst (readline bracket_text) =
       CHR ''['' # ''T'' @ CHR '']'' # '' '' @ ''1'' @ (''] 12 trailing junk'' @ [LF])
   \<and> ''T'' \<noteq> [] \<and> list_all is_space '' '' \<and> ''1'' \<noteq> [] \<and> list_all is_digit ''1''
   \<and> re_match header_pattern (fst (readline bracket_text)) =
       Some ('' trailing junk'' @ [LF], [(''count'', ''12''), (''title'', ''T] 1'')])
   \<and> (\<exists>m ws'. re_match header_pattern (fst (readline bracket_text)) = Some m
      \<and> fst (readline bracket_text) =
          CHR ''['' # group m ''title'' @ CHR '']'' # ws' @ group m ''count'' @ fst m
      \<and> list_all is_space ws'
      \<and> group m ''count'' \<noteq> [] \<and> list_all is_digit (group m ''count'')
      \<and> length ''T'' \<le> length (group m ''title'')
      \<and> fst (read_hol_file cal_hol (world_of bracket_text)) =
          Inr (group m ''title'',
               map line_to_event_tuple (readlines (snd (readline bracket_text))))
      \<and> re_match header_pattern ''[T] 12 trailing junk'' =
          Some ('' trailing junk'', [(''count'', ''12''), (''title'', ''T'')]))"
proof -
  have f: "files (world_of bracket_text) cal_hol = Some bracket_text"
    by (simp add: world_of_def cal_hol_def out_ics_def)
  have r: "fst (readline bracket_text) =
      CHR ''['' # ''T'' @ CHR '']'' # '' '' @ ''1'' @ (''] 12 trailing junk'' @ [LF])"
    by (simp add: bracket_text_def)
  have t: "''T'' \<noteq> []" and d: "''1'' \<noteq> []"
    by simp_all
  have s: "list_all is_space '' ''" and g: "list_all is_digit ''1''"
    by (simp_all add: is_space_def is_digit_def)
  have "re_match header_pattern (''[T] 1] 12 trailing junk'' @ [LF]) =
      Some ('' trailing junk'' @ [LF], [(''count'', ''12''), (''title'', ''T] 1'')])"
    by code_simp
  then have m: "re_match header_pattern (fst (readline bracket_text)) =
      Some ('' trailing junk'' @ [LF], [(''count'', ''12''), (''title'', ''T] 1'')])"
    by (simp add: bracket_text_def)
  show ?thesis
    using f r t s d g m header_match_is_prefix_match [OF f r t s d g]
    by (simp only: simp_thms)
qed

subsection \<open>The count of the header\<close>

lemma bracket_not_space_or_digit: "\<not> is_space CHR '']''" "\<not> is_digit CHR '']''"
  by (simp_all add: is_space_def is_digit_def)

lemma space_or_digit_not_tail:
  assumes "b \<noteq> []" and "\<forall>c\<in>set b. is_space c \<or> is_digit c"
  shows "\<not> tail_ok (b @ L)"
proof -
  obtain c b' where b: "b = c # b'" using assms(1) by (cases b) auto
  then have "c \<noteq> CHR '']''"
    using assms(2) bracket_not_space_or_digit by auto
  then show ?thesis
    using b by (simp add: tail_ok_def)
qed

lemma count_digits_replaced:
  assumes m: "re_match header_pattern (fst (readline (CHR ''['' # t @ CHR '']'' # ws @ d1 @ rest))) = Some m"
    and title: "group m ''title'' = t"
    and ws: "list_all is_space ws"
    and d1: "d1 \<noteq> []" "list_all is_digit d1"
    and d2: "d2 \<noteq> []" "list_all is_digit d2"
  shows "\<exists>m2. re_match header_pattern (fst (readline (CHR ''['' # t @ CHR '']'' # ws @ d2 @ rest))) = Some m2
    \<and> group m2 ''title'' = t
    \<and> snd (readline (CHR ''['' # t @ CHR '']'' # ws @ d2 @ rest)) = snd (readline rest)
    \<and> snd (readline (CHR ''['' # t @ CHR '']'' # ws @ d1 @ rest)) = snd (readline rest)"
proof -
  let ?text1 = "CHR ''['' # t @ CHR '']'' # ws @ d1 @ rest"
  let ?text2 = "CHR ''['' # t @ CHR '']'' # ws @ d2 @ rest"
  let ?P = "\<lambda>c. c \<noteq> LF"
  obtain x p r1 where h1: "fst (readline ?text1) = CHR ''['' # x # p @ CHR '']'' # r1"
    and x: "x \<noteq> LF"
    and l: "longest ?P tail_ok (p @ CHR '']'' # r1) = Some (p, CHR '']'' # r1)"
    and m_eq: "m = (dropWhile is_digit (dropWhile is_space r1),
           [(''count'', takeWhile is_digit (dropWhile is_space r1)), (''title'', x # p)])"
    using header_matchD [OF m] by blast
  have t: "t = x # p"
    using title m_eq by (simp add: group_def)
  have p: "list_all ?P p" and ok: "tail_ok (CHR '']'' # r1)"
    using longest_parts [OF l] by auto
  have t_lf: "LF \<notin> set (CHR ''['' # t @ [CHR '']''])"
    using t x p by (auto simp: list_all_iff)
  have rl: "readline (CHR ''['' # t @ CHR '']'' # v) =
      (CHR ''['' # t @ CHR '']'' # fst (readline v), snd (readline v))" for v
    using readline_append [OF t_lf, of v] by simp
  have r1: "r1 = fst (readline (ws @ d1 @ rest))"
    using h1 rl [of "ws @ d1 @ rest"] t by simp
  have ws_lf: "LF \<notin> set ws"
  proof
    assume "LF \<in> set ws"
    then have "dropWhile is_space r1 = []"
      unfolding r1 using ws by (intro spaces_to_line_end)
    then show False
      using ok by (simp add: tail_ok_def del: dropWhile_eq_Nil_conv)
  qed
  have d_lf: "LF \<notin> set d" if "list_all is_digit d" for d
    using that digit_not_LF by (auto simp: list_all_iff)
  have rl2: "readline (ws @ d @ rest) = (ws @ d @ fst (readline rest), snd (readline rest))"
    if "list_all is_digit d" for d
    using readline_append [of "ws @ d" rest] ws_lf d_lf [OF that] by simp
  let ?L = "fst (readline rest)"
  have line1: "fst (readline ?text1) = CHR ''['' # x # p @ (CHR '']'' # ws @ d1) @ ?L"
    and rest1: "snd (readline ?text1) = snd (readline rest)"
    using rl [of "ws @ d1 @ rest"] rl2 [OF d1(2)] t by simp_all
  have line2: "fst (readline ?text2) = CHR ''['' # x # p @ (CHR '']'' # ws @ d2) @ ?L"
    and rest2: "snd (readline ?text2) = snd (readline rest)"
    using rl [of "ws @ d2 @ rest"] rl2 [OF d2(2)] t by simp_all
  have l1: "longest ?P tail_ok (p @ (CHR '']'' # ws @ d1) @ ?L) = Some (p, (CHR '']'' # ws @ d1) @ ?L)"
    using l h1 line1 by simp
  have l2: "longest ?P tail_ok (p @ (CHR '']'' # ws @ d2) @ ?L) = Some (p, (CHR '']'' # ws @ d2) @ ?L)"
  proof (rule longest_replace [OF l1])
    show "tail_ok ((CHR '']'' # ws @ d2) @ ?L)"
      using tail_ok_intro [OF ws d2, of ?L] by simp
    show "CHR '']'' # ws @ d1 \<noteq> []" by simp
    show "list_all ?P (CHR '']'' # ws @ d1)"
      using ws_lf d_lf [OF d1(2)] by (auto simp: list_all_iff)
  next
    fix a b
    assume ab: "CHR '']'' # ws @ d2 = a @ b" and a: "a \<noteq> []" and b: "b \<noteq> []"
    obtain a' where "a = CHR '']'' # a'" and "ws @ d2 = a' @ b"
      using ab a by (cases a) auto
    then have "set b \<subseteq> set ws \<union> set d2"
      by (metis set_append Un_upper2)
    then have "\<forall>c\<in>set b. is_space c \<or> is_digit c"
      using ws d2(2) by (auto simp: list_all_iff)
    then show "\<not> tail_ok (b @ ?L)"
      using b by (intro space_or_digit_not_tail)
  qed
  have "re_match header_pattern (fst (readline ?text2)) =
      Some (dropWhile is_digit (dropWhile is_space (tl ((CHR '']'' # ws @ d2) @ ?L))),
          [(''count'', takeWhile is_digit (dropWhile is_space (tl ((CHR '']'' # ws @ d2) @ ?L)))),
           (''title'', x # p)])"
    unfolding line2 by (rule header_matchI [OF x l2])
  then show ?thesis
    using rest1 rest2 t by (simp add: group_def)
qed

lemma convert_matched:
  assumes "files w src = Some text"
    and "re_match header_pattern (fst (readline text)) = Some m"
  shows "convert e src dst w =
    write_ics_file e (map line_to_event_tuple (readlines (snd (readline text)))) dst
      (group m ''title'')
      (print [''You can try to validate the resultant file using this webform:'',
              ''https://icalendar.org/validator.html''] w)"
  using assms
  by (cases "readline text") (simp add: convert_def read_hol_file_def header_found_def)

lemma write_ics_file_outcome:
  "fst (write_ics_file e events dst title w) =
     (case ics_lines e events title of Inl err \<Rightarrow> Inl err | Inr ls \<Rightarrow> Inr ())"
  by (simp add: write_ics_file_def split: sum.splits)

lemma write_ics_file_written:
  "ics_lines e events title = Inr ls \<Longrightarrow>
     files (snd (write_ics_file e events dst title (print msg w))) =
       (files w)(dst \<mapsto> str_join CRLF ls)"
  by (simp add: write_ics_file_def writelines_def open_w_def print_def)

text \<open>
  Claim C8. Take a source file whose header matches with the title \<open>t\<close>, the digits \<open>d1\<close>
  standing where the count of the header begins, and a second source file that has the
  digits \<open>d2\<close> in their place and is the same otherwise. Both files are read to the same
  title and the same events, and a conversion with the same identifiers and clock has
  the same outcome on both. When the conversion of the first file succeeds, so does the
  conversion of the second for every count \<open>d2\<close>, whatever the number of record lines;
  the two destinations hold the CRLF-joined lines built from the same title and events,
  which agree line by line except in the \<open>UID\<close> and \<open>DTSTAMP\<close> lines, and with the same
  identifiers and clock the second file gives the very document of the first.
\<close>

theorem count_digits_do_not_affect_output:
  assumes "files w1 src = Some (CHR ''['' # t @ CHR '']'' # ws @ d1 @ rest)"
    and "files w2 src = Some (CHR ''['' # t @ CHR '']'' # ws @ d2 @ rest)"
    and "re_match header_pattern
           (fst (readline (CHR ''['' # t @ CHR '']'' # ws @ d1 @ rest))) = Some m"
    and "group m ''title'' = t"
    and "list_all is_space ws"
    and "d1 \<noteq> []" and "list_all is_digit d1"
    and "d2 \<noteq> []" and "list_all is_digit d2"
  shows "\<exists>events.
      events = map line_to_event_tuple (readlines (snd (readline rest)))
    \<and> fst (read_hol_file src w1) = Inr (t, events)
    \<and> fst (read_hol_file src w2) = Inr (t, events)
    \<and> fst (convert e1 src dst w1) = fst (convert e1 src dst w2)
    \<and> (fst (convert e1 src dst w1) = Inr () \<longrightarrow>
        (\<exists>ls1 ls2. ics_lines e1 events t = Inr ls1 \<and> ics_lines e2 events t = Inr ls2
          \<and> differ_only_in_uid_dtstamp ls1 ls2
          \<and> fst (convert e2 src dst w2) = Inr ()
          \<and> files (snd (convert e1 src dst w1)) = (files w1)(dst \<mapsto> str_join CRLF ls1)
          \<and> files (snd (convert e2 src dst w2)) = (files w2)(dst \<mapsto> str_join CRLF ls2)
          \<and> files (snd (convert e1 src dst w2)) dst = Some (str_join CRLF ls1)))"
proof -
  let ?text1 = "CHR ''['' # t @ CHR '']'' # ws @ d1 @ rest"
  let ?text2 = "CHR ''['' # t @ CHR '']'' # ws @ d2 @ rest"
  let ?events = "map line_to_event_tuple (readlines (snd (readline rest)))"
  obtain m2 where m2: "re_match header_pattern (fst (readline ?text2)) = Some m2"
    and t2: "group m2 ''title'' = t"
    and rest2: "snd (readline ?text2) = snd (readline rest)"
    and rest1: "snd (readline ?text1) = snd (readline rest)"
    using count_digits_replaced [OF assms(3-9)] by blast
  have read1: "fst (read_hol_file src w1) = Inr (t, ?events)"
    using read_hol_file_matched [OF assms(1,3)] assms(4) rest1 by simp
  have read2: "fst (read_hol_file src w2) = Inr (t, ?events)"
    using read_hol_file_matched [OF assms(2) m2] t2 rest2 by simp
  let ?hint = "[''You can try to validate the resultant file using this webform:'',
              ''https://icalendar.org/validator.html'']"
  have c1: "convert e src dst w1 = write_ics_file e ?events dst t (print ?hint w1)" for e
    using convert_matched [OF assms(1,3)] assms(4) rest1 by simp
  have c2: "convert e src dst w2 = write_ics_file e ?events dst t (print ?hint w2)" for e
    using convert_matched [OF assms(2) m2] t2 rest2 by simp
  have same: "fst (convert e1 src dst w1) = fst (convert e1 src dst w2)"
    by (simp add: c1 c2 write_ics_file_outcome)
  have docs: "\<exists>ls1 ls2. ics_lines e1 ?events t = Inr ls1 \<and> ics_lines e2 ?events t = Inr ls2
          \<and> differ_only_in_uid_dtstamp ls1 ls2
          \<and> fst (convert e2 src dst w2) = Inr ()
          \<and> files (snd (convert e1 src dst w1)) = (files w1)(dst \<mapsto> str_join CRLF ls1)
          \<and> files (snd (convert e2 src dst w2)) = (files w2)(dst \<mapsto> str_join CRLF ls2)
          \<and> files (snd (convert e1 src dst w2)) dst = Some (str_join CRLF ls1)"
    if ok: "fst (convert e1 src dst w1) = Inr ()"
  proof -
    obtain ls1 where l1: "ics_lines e1 ?events t = Inr ls1"
      using ok by (auto simp: c1 write_ics_file_outcome split: sum.splits)
    obtain ls2 where l2: "ics_lines e2 ?events t = Inr ls2"
      and d: "differ_only_in_uid_dtstamp ls1 ls2"
      using ics_lines_other_env [OF l1] by blast
    have "fst (convert e2 src dst w2) = Inr ()"
      by (simp add: c2 write_ics_file_outcome l2)
    moreover have "files (snd (convert e1 src dst w1)) = (files w1)(dst \<mapsto> str_join CRLF ls1)"
      unfolding c1 by (rule write_ics_file_written [OF l1])
    moreover have "files (snd (convert e2 src dst w2)) = (files w2)(dst \<mapsto> str_join CRLF ls2)"
      unfolding c2 by (rule write_ics_file_written [OF l2])
    moreover have "files (snd (convert e1 src dst w2)) dst = Some (str_join CRLF ls1)"
      unfolding c2 by (simp add: write_ics_file_written [OF l1])
    ultimately show ?thesis
      using l1 l2 d by blast
  qed
  show ?thesis
    using read1 read2 same docs by blast
qed

theorem count_digits_do_not_affect_output_witness:
  "files (world_of test_text) cal_hol =
     Some (CHR ''['' # ''Test'' @ CHR '']'' # '' '' @ ''2'' @ test_records)
   \<and> files (world_of recount_text) cal_hol =
     Some (CHR ''['' # ''Test'' @ CHR '']'' # '' '' @ ''17'' @ test_records)
   \<and> re_match header_pattern
       (fst (readline (CHR ''['' # ''Test'' @ CHR '']'' # '' '' @ ''2'' @ test_records))) =
     Some ([LF], [(''count'', ''2''), (''title'', ''Test'')])
   \<and> group ([LF], [(''count'', ''2''), (''title'', ''Test'')]) ''title'' = ''Test''
   \<and> list_all is_space '' ''
   \<and> ''2'' \<noteq> [] \<and> list_all is_digit ''2'' \<and> ''17'' \<noteq> [] \<and> list_all is_digit ''17''
   \<and> fst (convert example_env cal_hol cal_ics (world_of test_text)) = Inr ()
   \<and> (\<exists>events.
        events = map line_to_event_tuple (readlines (snd (readline test_records)))
      \<and> fst (read_hol_file cal_hol (world_of test_text)) = Inr (''Test'', events)
      \<and> fst (read_hol_file cal_hol (world_of recount_text)) = Inr (''Test'', events)
      \<and> fst (convert example_env cal_hol cal_ics (world_of test_text)) =
          fst (convert example_env cal_hol cal_ics (world_of recount_text))
      \<and> (\<exists>ls1 ls2. ics_lines example_env events ''Test'' = Inr ls1
          \<and> ics_lines other_env events ''Test'' = Inr ls2
          \<and> differ_only_in_uid_dtstamp ls1 ls2
          \<and> fst (convert other_env cal_hol cal_ics (world_of recount_text)) = Inr ()
          \<and> files (snd (convert example_env cal_hol cal_ics (world_of test_text))) =
              (files (world_of test_text))(cal_ics \<mapsto> str_join CRLF ls1)
          \<and> files (snd (convert other_env cal_hol cal_ics (world_of recount_text))) =
              (files (world_of recount_text))(cal_ics \<mapsto> str_join CRLF ls2)
          \<and> files (snd (convert example_env cal_hol cal_ics (world_of recount_text))) cal_ics =
              Some (str_join CRLF ls1)))"
proof -
  have h1: "files (world_of test_text) cal_hol =
      Some (CHR ''['' # ''Test'' @ CHR '']'' # '' '' @ ''2'' @ test_records)"
    by (simp add: world_of_def cal_hol_def out_ics_def test_text_def test_records_def)
  have h2: "files (world_of recount_text) cal_hol =
      Some (CHR ''['' # ''Test'' @ CHR '']'' # '' '' @ ''17'' @ test_records)"
    by (simp add: world_of_def cal_hol_def out_ics_def recount_text_def test_records_def)
  have "fst (readline (CHR ''['' # ''Test'' @ CHR '']'' # '' '' @ ''2'' @ test_records)) =
      ''[Test] 2'' @ [LF]"
    by (simp add: test_records_def)
  then have h3: "re_match header_pattern
       (fst (readline (CHR ''['' # ''Test'' @ CHR '']'' # '' '' @ ''2'' @ test_records))) =
     Some ([LF], [(''count'', ''2''), (''title'', ''Test'')])"
    using example_header by simp
  have h4: "group ([LF], [(''count'', ''2''), (''title'', ''Test'')]) ''title'' = ''Test''"
    by (simp add: group_def)
  have h5: "list_all is_space '' ''"
    by (simp add: is_space_def)
  have h6: "''2'' \<noteq> []" and h8: "''17'' \<noteq> []"
    by simp_all
  have h7: "list_all is_digit ''2''" and h9: "list_all is_digit ''17''"
    by (simp_all add: is_digit_def)
  have ok: "fst (convert example_env cal_hol cal_ics (world_of test_text)) = Inr ()"
    unfolding convert_def example_read [OF example_file]
    by (simp only: prod.case sum.case write_ics_file_def example_lines Let_def) simp
  have run: "\<exists>events.
        events = map line_to_event_tuple (readlines (snd (readline test_records)))
      \<and> fst (read_hol_file cal_hol (world_of test_text)) = Inr (''Test'', events)
      \<and> fst (read_hol_file cal_hol (world_of recount_text)) = Inr (''Test'', events)
      \<and> fst (convert example_env cal_hol cal_ics (world_of test_text)) =
          fst (convert example_env cal_hol cal_ics (world_of recount_text))
      \<and> (\<exists>ls1 ls2. ics_lines example_env events ''Test'' = Inr ls1
          \<and> ics_lines other_env events ''Test'' = Inr ls2
          \<and> differ_only_in_uid_dtstamp ls1 ls2
          \<and> fst (convert other_env cal_hol cal_ics (world_of recount_text)) = Inr ()
          \<and> files (snd (convert example_env cal_hol cal_ics (world_of test_text))) =
              (files (world_of test_text))(cal_ics \<mapsto> str_join CRLF ls1)
          \<and> files (snd (convert other_env cal_hol cal_ics (world_of recount_text))) =
              (files (world_of recount_text))(cal_ics \<mapsto> str_join CRLF ls2)
          \<and> files (snd (convert example_env cal_hol cal_ics (world_of recount_text))) cal_ics =
              Some (str_join CRLF ls1))"
    using ok count_digits_do_not_affect_output [OF h1 h2 h3 h4 h5 h6 h7 h8 h9,
        of example_env cal_ics other_env]
    by blast
  show ?thesis
    by (intro conjI h1 h2 h3 h4 h5 h6 h7 h8 h9 ok run)
qed

lemma read_hol_file_result:
  assumes "files w src = Some text"
    and "re_match header_pattern (fst (readline text)) = Some m"
  shows "read_hol_file src w =
    (Inr (group m ''title'', map line_to_event_tuple (readlines (snd (readline text)))),
     print [''You can try to validate the resultant file using this webform:'',
            ''https://icalendar.org/validator.html''] w)"
  using assms by (cases "readline text") (simp add: read_hol_file_def header_found_def)

lemma write_ics_file_stdout:
  "stdout (snd (write_ics_file e events dst title w)) = stdout w"
  by (simp add: write_ics_file_def writelines_def open_w_def split: sum.splits)

lemma write_ics_file_destination:
  "files (snd (write_ics_file e events dst title w)) dst =
     (case ics_lines e events title of
        Inl err \<Rightarrow> files w dst
      | Inr ls \<Rightarrow> Some (str_join CRLF ls))"
  by (simp add: write_ics_file_def writelines_def open_w_def split: sum.splits)

text \<open>
  Claim C6. For a source file whose first line is \<^verbatim>\<open>[Holidays 2024] 12\<close> and a line feed,
  the pattern matches the line with the group \<open>title\<close> being \<^verbatim>\<open>Holidays 2024\<close> and the
  group \<open>count\<close> being \<^verbatim>\<open>12\<close>, and \<^verbatim>\<open>read_hol_file\<close> returns the title
  \<^verbatim>\<open>Holidays 2024\<close> with the events of the remaining lines. Nothing that is computed
  afterwards depends on the count: with any other digits in the place of \<^verbatim>\<open>12\<close>,
  \<^verbatim>\<open>read_hol_file\<close> returns the same title and events and prints the same, and the
  conversion has the same outcome, prints the same and leaves the same text in the
  destination.
\<close>

theorem header_extraction_count_unused:
  assumes "files w src = Some (''[Holidays 2024] 12'' @ [LF] @ rest)"
    and "files w' src = Some (''[Holidays 2024] '' @ ds @ [LF] @ rest)"
    and "ds \<noteq> []" and "list_all is_digit ds"
    and "files w' dst = files w dst" and "stdout w' = stdout w"
  shows "(\<exists>m. re_match header_pattern (fst (readline (''[Holidays 2024] 12'' @ [LF] @ rest))) = Some m
        \<and> group m ''title'' = ''Holidays 2024'' \<and> group m ''count'' = ''12'')
    \<and> fst (read_hol_file src w) =
        Inr (''Holidays 2024'', map line_to_event_tuple (readlines rest))
    \<and> fst (read_hol_file src w') = fst (read_hol_file src w)
    \<and> stdout (snd (read_hol_file src w')) = stdout (snd (read_hol_file src w))
    \<and> fst (convert e src dst w') = fst (convert e src dst w)
    \<and> stdout (snd (convert e src dst w')) = stdout (snd (convert e src dst w))
    \<and> files (snd (convert e src dst w')) dst = files (snd (convert e src dst w)) dst"
proof -
  let ?t = "''Holidays 2024''"
  let ?m = "([LF], [(''count'', ''12''), (''title'', ?t)])"
  let ?text = "CHR ''['' # ?t @ CHR '']'' # '' '' @ ''12'' @ (LF # rest)"
  let ?text' = "CHR ''['' # ?t @ CHR '']'' # '' '' @ ds @ (LF # rest)"
  let ?events = "map line_to_event_tuple (readlines rest)"
  let ?hint = "[''You can try to validate the resultant file using this webform:'',
            ''https://icalendar.org/validator.html'']"
  have line: "''[Holidays 2024] 12'' @ [LF] @ rest = ?text"
    and line': "''[Holidays 2024] '' @ ds @ [LF] @ rest = ?text'"
    by simp_all
  have "re_match header_pattern (''[Holidays 2024] 12'' @ [LF]) = Some ?m"
    by code_simp
  moreover have "fst (readline ?text) = ''[Holidays 2024] 12'' @ [LF]"
    by (simp split: prod.splits)
  ultimately have m: "re_match header_pattern (fst (readline ?text)) = Some ?m"
    by simp
  have title: "group ?m ''title'' = ?t" and count: "group ?m ''count'' = ''12''"
    by (simp_all add: group_def)
  have sp: "list_all is_space '' ''" and d1: "''12'' \<noteq> []" "list_all is_digit ''12''"
    by (simp_all add: is_space_def is_digit_def)
  obtain m2 where m2: "re_match header_pattern (fst (readline ?text')) = Some m2"
    and t2: "group m2 ''title'' = ?t"
    and rest2: "snd (readline ?text') = snd (readline (LF # rest))"
    and rest1: "snd (readline ?text) = snd (readline (LF # rest))"
    using count_digits_replaced [OF m title sp d1 assms(3,4)] by blast
  have lf: "snd (readline (LF # rest)) = rest"
    by simp
  have f: "files w src = Some ?text" and f': "files w' src = Some ?text'"
    using assms(1,2) by simp_all
  have r: "read_hol_file src w = (Inr (?t, ?events), print ?hint w)"
    using read_hol_file_result [OF f m] title rest1 lf by simp
  have r': "read_hol_file src w' = (Inr (?t, ?events), print ?hint w')"
    using read_hol_file_result [OF f' m2] t2 rest2 lf by simp
  have c: "convert e src dst w = write_ics_file e ?events dst ?t (print ?hint w)"
    using r by (simp add: convert_def)
  have c': "convert e src dst w' = write_ics_file e ?events dst ?t (print ?hint w')"
    using r' by (simp add: convert_def)
  have found: "\<exists>m. re_match header_pattern (fst (readline (''[Holidays 2024] 12'' @ [LF] @ rest))) = Some m
        \<and> group m ''title'' = ''Holidays 2024'' \<and> group m ''count'' = ''12''"
    unfolding line using m title count by blast
  have 1: "fst (read_hol_file src w) = Inr (?t, ?events)"
    and 2: "fst (read_hol_file src w') = fst (read_hol_file src w)"
    and 3: "stdout (snd (read_hol_file src w')) = stdout (snd (read_hol_file src w))"
    using assms(6) by (simp_all add: r r' print_def)
  have 4: "fst (convert e src dst w') = fst (convert e src dst w)"
    by (simp add: c c' write_ics_file_outcome)
  have 5: "stdout (snd (convert e src dst w')) = stdout (snd (convert e src dst w))"
    using assms(6) by (simp add: c c' write_ics_file_stdout print_def)
  have 6: "files (snd (convert e src dst w')) dst = files (snd (convert e src dst w)) dst"
    using assms(5) by (simp add: c c' write_ics_file_destination print_def split: sum.splits)
  show ?thesis
    using found 1 2 3 4 5 6 by (intro conjI)
qed

theorem header_extraction_count_unused_witness:
  "files (world_of holidays_text) cal_hol =
     Some (''[Holidays 2024] 12'' @ [LF] @ (''A,2024/01/01'' @ [LF]))
   \<and> files (world_of holidays_recount_text) cal_hol =
     Some (''[Holidays 2024] '' @ ''365'' @ [LF] @ (''A,2024/01/01'' @ [LF]))
   \<and> ''365'' \<noteq> [] \<and> list_all is_digit ''365''
   \<and> files (world_of holidays_recount_text) cal_ics = files (world_of holidays_text) cal_ics
   \<and> stdout (world_of holidays_recount_text) = stdout (world_of holidays_text)
   \<and> (\<exists>m. re_match header_pattern
            (fst (readline (''[Holidays 2024] 12'' @ [LF] @ (''A,2024/01/01'' @ [LF])))) = Some m
        \<and> group m ''title'' = ''Holidays 2024'' \<and> group m ''count'' = ''12'')
   \<and> fst (read_hol_file cal_hol (world_of holidays_text)) =
        Inr (''Holidays 2024'', map line_to_event_tuple (readlines (''A,2024/01/01'' @ [LF])))
   \<and> fst (read_hol_file cal_hol (world_of holidays_recount_text)) =
        fst (read_hol_file cal_hol (world_of holidays_text))
   \<and> stdout (snd (read_hol_file cal_hol (world_of holidays_recount_text))) =
        stdout (snd (read_hol_file cal_hol (world_of holidays_text)))
   \<and> fst (convert example_env cal_hol cal_ics (world_of holidays_recount_text)) =
        fst (convert example_env cal_hol cal_ics (world_of holidays_text))
   \<and> stdout (snd (convert example_env cal_hol cal_ics (world_of holidays_recount_text))) =
        stdout (snd (convert example_env cal_hol cal_ics (world_of holidays_text)))
   \<and> files (snd (convert example_env cal_hol cal_ics (world_of holidays_recount_text))) cal_ics =
        files (snd (convert example_env cal_hol cal_ics (world_of holidays_text))) cal_ics"
proof -
  have h1: "files (world_of holidays_text) cal_hol =
     Some (''[Holidays 2024] 12'' @ [LF] @ (''A,2024/01/01'' @ [LF]))"
    by (simp add: world_of_def holidays_text_def cal_hol_def out_ics_def)
  have h2: "files (world_of holidays_recount_text) cal_hol =
     Some (''[Holidays 2024] '' @ ''365'' @ [LF] @ (''A,2024/01/01'' @ [LF]))"
    by (simp add: world_of_def holidays_recount_text_def cal_hol_def out_ics_def)
  have h3: "''365'' \<noteq> []"
    by simp
  have h4: "list_all is_digit ''365''"
    by (simp add: is_digit_def)
  have h5: "files (world_of holidays_recount_text) cal_ics = files (world_of holidays_text) cal_ics"
    by (simp add: world_of_def cal_hol_def cal_ics_def out_ics_def)
  have h6: "stdout (world_of holidays_recount_text) = stdout (world_of holidays_text)"
    by (simp add: world_of_def)
  note run = header_extraction_count_unused [OF h1 h2 h3 h4 h5 h6, of example_env]
  show ?thesis
    by (intro conjI h1 h2 h3 h4 h5 h6 run [THEN conjunct1]
        run [THEN conjunct2, THEN conjunct1]
        run [THEN conjunct2, THEN conjunct2, THEN conjunct1]
        run [THEN conjunct2, THEN conjunct2, THEN conjunct2, THEN conjunct1]
        run [THEN conjunct2, THEN conjunct2, THEN conjunct2, THEN conjunct2, THEN conjunct1]
        run [THEN conjunct2, THEN conjunct2, THEN conjunct2, THEN conjunct2, THEN conjunct2,
          THEN conjunct1]
        run [THEN conjunct2, THEN conjunct2, THEN conjunct2, THEN conjunct2, THEN conjunct2,
          THEN conjunct2])
qed

subsection \<open>The fragments of a record line\<close>

lemma one_char_reads:
  "st' \<in> set (one_char P st) \<Longrightarrow> \<exists>u. fst st = u @ fst st' \<and> list_all P u"
  by (cases "fst st") (auto simp: one_char_def split: if_splits)

lemma star_iter_reads:
  assumes "\<And>st st'. st' \<in> set (m st) \<Longrightarrow> \<exists>u. fst st = u @ fst st' \<and> list_all P u"
  shows "st' \<in> set (star_iter m n st) \<Longrightarrow> \<exists>u. fst st = u @ fst st' \<and> list_all P u"
proof (induction n arbitrary: st)
  case 0
  then show ?case by simp
next
  case (Suc n)
  from Suc.prems consider
      (stop) "st' = st"
    | (more) st1 where "st1 \<in> set (m st)" "st' \<in> set (star_iter m n st1)"
    by auto
  then show ?case
  proof cases
    case stop
    then show ?thesis by simp
  next
    case more
    obtain u where u: "fst st = u @ fst st1" "list_all P u"
      using assms [OF more(1)] by blast
    obtain v where v: "fst st1 = v @ fst st'" "list_all P v"
      using Suc.IH [OF more(2)] by blast
    have "fst st = (u @ v) @ fst st'" "list_all P (u @ v)"
      using u v by simp_all
    then show ?thesis by blast
  qed
qed

lemma atom_reads:
  assumes "st' \<in> set (rmatch r st)" and "rmatch r st = one_char P st"
    and "\<And>c. may_read r c = P c"
  shows "\<exists>u. fst st = u @ fst st' \<and> list_all (may_read r) u"
proof -
  have "may_read r = P"
    using assms(3) by (intro ext)
  then show ?thesis
    using one_char_reads [of st' P st] assms(1,2) by simp
qed

lemma rmatch_reads:
  "st' \<in> set (rmatch r st) \<Longrightarrow> \<exists>u. fst st = u @ fst st' \<and> list_all (may_read r) u"
proof (induction r arbitrary: st st')
  case (Seq r1 r2)
  then obtain st1 where s1: "st1 \<in> set (rmatch r1 st)" and s2: "st' \<in> set (rmatch r2 st1)"
    by auto
  obtain u where u: "fst st = u @ fst st1" "list_all (may_read r1) u"
    using Seq.IH(1) [OF s1] by blast
  obtain v where v: "fst st1 = v @ fst st'" "list_all (may_read r2) v"
    using Seq.IH(2) [OF s2] by blast
  have "fst st = (u @ v) @ fst st'" "list_all (may_read (Seq r1 r2)) (u @ v)"
    using u v by (auto simp: list_all_iff)
  then show ?case by blast
next
  case (Alt r1 r2)
  then consider "st' \<in> set (rmatch r1 st)" | "st' \<in> set (rmatch r2 st)"
    by auto
  then show ?case
  proof cases
    case 1
    from Alt.IH(1) [OF this] show ?thesis by (auto simp: list_all_iff)
  next
    case 2
    from Alt.IH(2) [OF this] show ?thesis by (auto simp: list_all_iff)
  qed
next
  case (Star r)
  have "st' \<in> set (star_iter (rmatch r) (length (fst st)) st)"
    using Star.prems by simp
  then have "\<exists>u. fst st = u @ fst st' \<and> list_all (may_read r) u"
    by (rule star_iter_reads [rotated]) (rule Star.IH)
  then show ?case by simp
next
  case (Grp g r)
  then obtain st1 where "st1 \<in> set (rmatch r st)" and "fst st' = fst st1"
    by auto
  then show ?case
    using Grp.IH [of st1 st] by auto
qed (erule atom_reads; simp)+

lemma date_regex_reads_no_comma: "\<not> may_read date_regex CHR '',''"
  by (simp add: date_regex_def is_digit_def in_range_def)

lemma strptime_reads:
  assumes "strptime s = Inr b"
  shows "list_all (may_read date_regex) s"
proof -
  obtain found where f: "re_match date_regex s = Some found" and e: "fst found = []"
    using assms by (auto simp: strptime_def split: option.splits if_splits)
  have "found \<in> set (rmatch date_regex (s, []))"
    using f by (auto simp: re_match_def split: list.splits)
  from rmatch_reads [OF this] show ?thesis
    using e by simp
qed

lemma strptime_no_comma: "strptime s = Inr b \<Longrightarrow> CHR '','' \<notin> set s"
  using strptime_reads [of s b] date_regex_reads_no_comma by (auto simp: list_all_iff)

lemma dropWhile_keeps: "x \<in> set xs \<Longrightarrow> \<not> P x \<Longrightarrow> x \<in> set (dropWhile P xs)"
  by (induction xs) auto

lemma strip_keeps: "x \<in> set s \<Longrightarrow> \<not> is_space x \<Longrightarrow> x \<in> set (strip s)"
  by (simp add: strip_def dropWhile_keeps)

lemma comma_not_space: "\<not> is_space CHR '',''"
  by (simp add: is_space_def)

lemma str_split_first:
  "c \<notin> set t \<Longrightarrow> str_split c (t @ c # d) = t # str_split c d"
  by (induction t) (auto split: list.splits)

text \<open>
  Claim C5. Let \<open>t\<close> be the text of a record line before its first comma and \<open>d\<close> the
  text after it. The line yields a record exactly when \<^verbatim>\<open>strptime\<close> accepts \<open>d\<close> with its
  surrounding white space removed, and the record is then \<open>t\<close> itself, no character
  trimmed, with the date that \<^verbatim>\<open>strptime\<close> read in the order year, month, day between
  slashes. The line \<^verbatim>\<open>New Year's Day,2024/01/01\<close> yields the title \<^verbatim>\<open>New Year's Day\<close>
  and the first of January 2024.
\<close>

theorem record_date_trimmed_title_untrimmed:
  assumes "CHR '','' \<notin> set t"
  shows "(line_to_event_tuple (t @ CHR '','' # d) = Inr (a, b))
       = (a = t \<and> strptime (strip d) = Inr b)
    \<and> line_to_event_tuple ''New Year's Day,2024/01/01'' =
        Inr (''New Year's Day'',
             \<lparr>year = 2024, month = 1, day = 1, hour = 0, minute = 0, second = 0\<rparr>)"
proof -
  have general: "(line_to_event_tuple (t @ CHR '','' # d) = Inr (a, b))
       = (a = t \<and> strptime (strip d) = Inr b)"
  proof (cases "CHR '','' \<in> set d")
    case True
    then have "filter (\<lambda>c. c = CHR '','') d \<noteq> []"
      by (auto simp: filter_empty_conv)
    then have "length (filter (\<lambda>c. c = CHR '','') (t @ CHR '','' # d)) \<noteq> 1"
      by simp
    then have "line_to_event_tuple (t @ CHR '','' # d) \<noteq> Inr (a, b)"
      using line_unpack_error by simp
    moreover have "CHR '','' \<in> set (strip d)"
      using True comma_not_space by (rule strip_keeps)
    then have "strptime (strip d) \<noteq> Inr b"
      using strptime_no_comma by blast
    ultimately show ?thesis by simp
  next
    case False
    show ?thesis
      unfolding line_one_comma [OF assms False] by (auto split: sum.splits)
  qed
  have "line_to_event_tuple ''New Year's Day,2024/01/01'' =
        Inr (''New Year's Day'',
             \<lparr>year = 2024, month = 1, day = 1, hour = 0, minute = 0, second = 0\<rparr>)"
    by code_simp
  with general show ?thesis by simp
qed

theorem record_date_trimmed_title_untrimmed_witness:
  "CHR '','' \<notin> set '' Boxing  Day ''
   \<and> strip ('' 2024/12/26 '' @ [LF]) = ''2024/12/26''
   \<and> strptime ''2024/12/26'' =
       Inr \<lparr>year = 2024, month = 12, day = 26, hour = 0, minute = 0, second = 0\<rparr>
   \<and> line_to_event_tuple ('' Boxing  Day '' @ CHR '','' # '' 2024/12/26 '' @ [LF]) =
       Inr ('' Boxing  Day '',
            \<lparr>year = 2024, month = 12, day = 26, hour = 0, minute = 0, second = 0\<rparr>)"
proof -
  have c: "CHR '','' \<notin> set '' Boxing  Day ''"
    by simp
  have s: "strip ('' 2024/12/26 '' @ [LF]) = ''2024/12/26''"
    by code_simp
  have p: "strptime ''2024/12/26'' =
       Inr \<lparr>year = 2024, month = 12, day = 26, hour = 0, minute = 0, second = 0\<rparr>"
    by code_simp
  have "line_to_event_tuple ('' Boxing  Day '' @ CHR '','' # '' 2024/12/26 '' @ [LF]) =
       Inr ('' Boxing  Day '',
            \<lparr>year = 2024, month = 12, day = 26, hour = 0, minute = 0, second = 0\<rparr>)"
    using record_date_trimmed_title_untrimmed [OF c, of "'' 2024/12/26 '' @ [LF]"
        "'' Boxing  Day ''"
        "\<lparr>year = 2024, month = 12, day = 26, hour = 0, minute = 0, second = 0\<rparr>"]
      s p
    by simp
  then show ?thesis
    using c s p by (intro conjI)
qed

end
